theory Spec2Isabelle
  imports Main "HOL-Library.Sublist"
begin

section \<open>Puck.js BLE interface library (src/js/puck.js)\<close>

subsection \<open>Chunking of an outbound payload\<close>

text \<open>
  \<^verbatim>\<open>var CHUNKSIZE = 16;\<close> (line 53).
\<close>

definition CHUNKSIZE :: nat where
  "CHUNKSIZE = 16"

text \<open>
  Lines 109-115 of \<^verbatim>\<open>writeChunk\<close>: the next chunk of a request and what is left
  of its payload. \<^verbatim>\<open>None\<close> is JavaScript's \<^verbatim>\<open>undefined\<close>, which the
  code stores in \<^verbatim>\<open>txItem.data\<close> once the last chunk has been taken.
\<close>

definition takeChunk :: "string \<Rightarrow> string \<times> string option" where
  "takeChunk d =
     (if length d \<le> CHUNKSIZE then (d, None)
      else (take CHUNKSIZE d, Some (drop CHUNKSIZE d)))"

text \<open>
  The chunks an undisturbed drain hands to the transport for one payload:
  \<^verbatim>\<open>writeChunk\<close> is run again on the same \<^verbatim>\<open>txItem\<close> for as long as
  \<^verbatim>\<open>txItem.data\<close> is defined (lines 120-126).
\<close>

function chunks :: "string \<Rightarrow> string list" where
  "chunks d =
     (case takeChunk d of
        (chunk, None) \<Rightarrow> [chunk]
      | (chunk, Some rest) \<Rightarrow> chunk # chunks rest)"
  by pat_completeness auto
termination
  by (relation "measure length") (auto simp: takeChunk_def CHUNKSIZE_def split: if_splits)

declare chunks.simps [simp del]

subsection \<open>The connection object and its closure variables\<close>

datatype event = EvOpen | EvData | EvClose

text \<open>
  What user code does with the connection while it runs inside a callback or an event
  handler: \<^verbatim>\<open>connection.write(data, callback)\<close>, \<^verbatim>\<open>connection.close()\<close>,
  \<^verbatim>\<open>connection.on(evt, cb)\<close>. A user function is the list of the calls it makes;
  an absent one (\<^verbatim>\<open>undefined\<close>) is \<^verbatim>\<open>None\<close>.
\<close>

datatype act =
    ActWrite string "act list option"
  | ActClose
  | ActOn event "act list option"

text \<open>An element of \<^verbatim>\<open>txDataQueue\<close>: \<^verbatim>\<open>{data:data, callback:callback}\<close> (line 102).\<close>

record txItem =
  data :: "string option"
  callback :: "act list option"

text \<open>
  What the outside sees, in order: calls of the transport's primitives, the transport's
  answers, and calls of user functions. A request is named by the address of its
  \<^verbatim>\<open>txItem\<close> object.
\<close>

datatype obs =
    Enqueued nat string
  | WriteValue nat string
  | Acked nat
  | Nacked nat
  | Completed nat
  | Connected bool
  | Emitted event string
  | Disconnect
  | TypeError

text \<open>The promise of the chain of lines 135-174 that is waiting for the transport.\<close>

datatype stage =
    AwaitDevice | AwaitGatt | AwaitService | AwaitRX | AwaitNotifications | AwaitTX
  | Settled

text \<open>
  The variables of one call of \<^verbatim>\<open>connect(callback)\<close> (lines 74-85). A variable that
  holds a transport object is modelled by whether it is defined. \<^verbatim>\<open>txItem\<close> objects
  are shared between the queue and the handlers of pending writes, so they live in a
  store (\<open>heap\<close>, next free address \<open>fresh\<close>) and the queue holds addresses.
  \<open>onConnected\<close> is \<^verbatim>\<open>callback\<close>: what it does when called with the connection
  and what it does when called with \<^verbatim>\<open>null\<close>. \<open>pending\<close> are the
  \<^verbatim>\<open>writeValue\<close> promises not yet settled, each with the \<^verbatim>\<open>txItem\<close> its
  handlers captured; \<open>listening\<close> and \<open>notifying\<close> say whether the listeners of lines
  139 and 155 are registered.
\<close>

record conn =
  isOpen :: bool
  btServer :: bool
  txCharacteristic :: bool
  rxCharacteristic :: bool
  txDataQueue :: "nat list"
  txInProgress :: bool
  heap :: "nat \<Rightarrow> txItem"
  fresh :: nat
  onopen :: "act list option"
  ondata :: "act list option"
  onclose :: "act list option"
  onConnected :: "act list \<times> act list"
  stage :: stage
  listening :: bool
  notifying :: bool
  pending :: "nat list"
  trace :: "obs list"

definition connect :: "act list \<times> act list \<Rightarrow> conn" where
  "connect cb =
     \<lparr> isOpen = False, btServer = False, txCharacteristic = False,
       rxCharacteristic = False, txDataQueue = [], txInProgress = False,
       heap = (\<lambda>_. \<lparr> data = None, callback = None \<rparr>), fresh = 0,
       onopen = None, ondata = None, onclose = None, onConnected = cb,
       stage = AwaitDevice, listening = False, notifying = False, pending = [],
       trace = [] \<rparr>"

definition observe :: "obs \<Rightarrow> conn \<Rightarrow> conn" where
  "observe e c = c\<lparr> trace := trace c @ [e] \<rparr>"

subsection \<open>The handlers, run to completion\<close>

text \<open>
  JavaScript runs each handler to completion, and a handler calls user functions that
  call back into the connection. The work that is still to run in the current handler
  is kept as an agenda: \<open>Do a\<close> is a call made by user code; the other items are the
  rest of the library's own handlers. \<open>CatchWrite\<close> and \<open>CatchNeg\<close> mark the
  \<^verbatim>\<open>.catch\<close> of lines 127 and 171: passed over when reached normally, and turned
  into \<open>SendError\<close> and \<open>NegError\<close> (the bodies of the two \<^verbatim>\<open>.catch\<close>) when an
  exception unwinds to them.
\<close>

datatype item =
    Do act
  | AfterCallback
  | EmitOpen
  | CatchWrite
  | CatchNeg
  | SendError
  | NegError

fun unwind :: "item list \<Rightarrow> item list" where
  "unwind [] = []"
| "unwind (CatchWrite # ag) = SendError # ag"
| "unwind (CatchNeg # ag) = NegError # ag"
| "unwind (_ # ag) = unwind ag"

definition calls :: "act list option \<Rightarrow> item list" where
  "calls f = (case f of None \<Rightarrow> [] | Some prog \<Rightarrow> map Do prog)"

text \<open>
  \<^verbatim>\<open>writeChunk\<close> (lines 105-132) up to the call of \<^verbatim>\<open>writeValue\<close>; the
  handlers of the promise are \<open>writeOk\<close> and \<open>SendError\<close> below. The result is
  \<open>Inl\<close> where the code throws a TypeError: \<^verbatim>\<open>txDataQueue[0]\<close> undefined,
  \<^verbatim>\<open>txItem.data\<close> undefined, or \<^verbatim>\<open>txCharacteristic\<close> undefined (by then
  \<^verbatim>\<open>txItem.data\<close> and \<^verbatim>\<open>txInProgress\<close> have been written).
\<close>

definition writeChunk :: "conn \<Rightarrow> conn + conn" where
  "writeChunk c =
     (case txDataQueue c of
        [] \<Rightarrow> Inl c
      | a # _ \<Rightarrow>
          (case data (heap c a) of
             None \<Rightarrow> Inl c
           | Some d \<Rightarrow>
               (let (chunk, rest) = takeChunk d;
                    c1 = c\<lparr> heap := (heap c)(a := (heap c a)\<lparr> data := rest \<rparr>),
                            txInProgress := True \<rparr>
                in if txCharacteristic c1
                   then Inr (observe (WriteValue a chunk) (c1\<lparr> pending := pending c1 @ [a] \<rparr>))
                   else Inl c1)))"

text \<open>An exception: the agenda is unwound to the nearest \<^verbatim>\<open>.catch\<close>.\<close>

definition throw :: "item list \<Rightarrow> conn \<Rightarrow> item list \<times> conn" where
  "throw ag c = (unwind ag, observe TypeError c)"

definition try_writeChunk :: "item list \<Rightarrow> conn \<Rightarrow> item list \<times> conn" where
  "try_writeChunk ag c =
     (case writeChunk c of Inl c1 \<Rightarrow> throw ag c1 | Inr c1 \<Rightarrow> (ag, c1))"

text \<open>
  Line 102, \<^verbatim>\<open>txDataQueue.push({data:data,callback:callback})\<close>: a new
  \<^verbatim>\<open>txItem\<close> object at a fresh address.
\<close>

definition enqueue :: "string \<Rightarrow> act list option \<Rightarrow> conn \<Rightarrow> conn" where
  "enqueue d cb c =
     observe (Enqueued (fresh c) d)
       (c\<lparr> heap := (heap c)(fresh c := \<lparr> data = Some d, callback = cb \<rparr>),
          fresh := Suc (fresh c),
          txDataQueue := txDataQueue c @ [fresh c] \<rparr>)"

text \<open>\<^verbatim>\<open>connection.write\<close>, lines 100-103.\<close>

definition connection_write :: "string \<Rightarrow> act list option \<Rightarrow> item list \<Rightarrow> conn \<Rightarrow> item list \<times> conn" where
  "connection_write d cb ag c =
     (if \<not> txCharacteristic c then (ag, c)
      else
        (let c1 = enqueue d cb c
         in if \<not> txInProgress c1 then try_writeChunk ag c1 else (ag, c1)))"

text \<open>
  \<^verbatim>\<open>connection.close\<close>, lines 87-98. \<^verbatim>\<open>emit\<close> (line 76) calls the handler
  only if one is registered.
\<close>

definition connection_close :: "item list \<Rightarrow> conn \<Rightarrow> item list \<times> conn" where
  "connection_close ag c =
     (if btServer c then
        (let c1 = (observe Disconnect c)\<lparr> btServer := False, txCharacteristic := False,
                                           rxCharacteristic := False \<rparr>
         in if isOpen c1
            then (calls (onclose c1) @ ag, observe (Emitted EvClose []) (c1\<lparr> isOpen := False \<rparr>))
            else (map Do (snd (onConnected c1)) @ ag, observe (Connected False) c1))
      else (ag, c))"

text \<open>\<^verbatim>\<open>connection.on\<close>, line 75.\<close>

definition connection_on :: "event \<Rightarrow> act list option \<Rightarrow> conn \<Rightarrow> conn" where
  "connection_on evt cb c =
     (case evt of
        EvOpen \<Rightarrow> c\<lparr> onopen := cb \<rparr>
      | EvData \<Rightarrow> c\<lparr> ondata := cb \<rparr>
      | EvClose \<Rightarrow> c\<lparr> onclose := cb \<rparr>)"

text \<open>
  One item of the agenda. \<open>AfterCallback\<close> is lines 124-126, \<open>EmitOpen\<close> line 170,
  \<open>SendError\<close> lines 128-130, \<open>NegError\<close> lines 172-173.
\<close>

fun exec :: "item \<Rightarrow> item list \<Rightarrow> conn \<Rightarrow> item list \<times> conn" where
  "exec (Do (ActWrite d cb)) ag c = connection_write d cb ag c"
| "exec (Do ActClose) ag c = connection_close ag c"
| "exec (Do (ActOn evt cb)) ag c = (ag, connection_on evt cb c)"
| "exec AfterCallback ag c =
     (let c1 = c\<lparr> txInProgress := False \<rparr>
      in if txDataQueue c1 \<noteq> [] then try_writeChunk ag c1 else (ag, c1))"
| "exec EmitOpen ag c = (calls (onopen c) @ ag, observe (Emitted EvOpen []) c)"
| "exec CatchWrite ag c = (ag, c)"
| "exec CatchNeg ag c = (ag, c)"
| "exec SendError ag c = (Do ActClose # ag, c\<lparr> txDataQueue := [] \<rparr>)"
| "exec NegError ag c = (Do ActClose # ag, c)"

text \<open>
  Running the agenda to its end. It ends because a user function is a finite list of
  calls, and a registered handler is only entered from items that are used up
  (\<open>busy\<close>) or from a \<^verbatim>\<open>close\<close> that finds \<^verbatim>\<open>btServer\<close> set and clears it.
\<close>

fun is_Do :: "item \<Rightarrow> bool" where
  "is_Do (Do _) = True"
| "is_Do _ = False"

definition busy :: "item list \<Rightarrow> nat" where
  "busy ag = length (filter (\<lambda>i. \<not> is_Do i) ag)"

definition rank :: "item list \<times> conn \<Rightarrow> nat \<times> nat \<times> nat" where
  "rank = (\<lambda>(ag, c). (busy ag, if btServer c then 1 else 0, length ag))"

lemma busy_simps [simp]:
  "busy [] = 0"
  "busy (i # ag) = (if is_Do i then busy ag else Suc (busy ag))"
  "busy (xs @ ys) = busy xs + busy ys"
  "busy (map Do prog) = 0"
  by (simp_all add: busy_def)

lemma busy_calls [simp]: "busy (calls f) = 0"
  by (simp add: calls_def split: option.splits)

lemma unwind_le: "busy (unwind ag) \<le> busy ag \<and> length (unwind ag) \<le> length ag"
  by (induction ag rule: unwind.induct) auto

lemma try_writeChunk_rank:
  assumes "try_writeChunk ag c = (ag', c')"
  shows "busy ag' \<le> busy ag \<and> length ag' \<le> length ag \<and> btServer c' = btServer c"
  using assms unwind_le [of ag]
  by (auto simp: try_writeChunk_def writeChunk_def throw_def observe_def Let_def
           split: list.splits option.splits prod.splits if_splits)

lemma connection_write_rank:
  assumes "connection_write d cb ag c = (ag', c')"
  shows "busy ag' \<le> busy ag \<and> length ag' \<le> length ag \<and> btServer c' = btServer c"
proof (cases "txCharacteristic c")
  case False
  with assms show ?thesis by (simp add: connection_write_def)
next
  case True
  with assms show ?thesis
    by (auto simp: connection_write_def Let_def observe_def enqueue_def
             split: if_splits dest!: try_writeChunk_rank)
qed

lemma exec_rank:
  assumes "exec it ag c = (ag', c')"
  shows "(rank (ag', c'), rank (it # ag, c)) \<in> less_than <*lex*> less_than <*lex*> less_than"
proof (cases it)
  case (Do a)
  show ?thesis
  proof (cases a)
    case (ActWrite d cb)
    with Do assms connection_write_rank [of d cb ag c ag' c'] show ?thesis
      by (auto simp: rank_def)
  next
    case ActClose
    with Do assms show ?thesis
      by (auto simp: rank_def connection_close_def Let_def observe_def split: if_splits)
  next
    case (ActOn evt cb)
    with Do assms show ?thesis
      by (auto simp: rank_def connection_on_def split: event.splits)
  qed
next
  case AfterCallback
  with assms show ?thesis
    by (auto simp: rank_def Let_def split: if_splits dest!: try_writeChunk_rank)
qed (use assms in \<open>auto simp: rank_def observe_def\<close>)

function drain :: "item list \<Rightarrow> conn \<Rightarrow> conn" where
  "drain [] c = c"
| "drain (it # ag) c = (case exec it ag c of (ag', c') \<Rightarrow> drain ag' c')"
  by pat_completeness auto
termination
proof (relation "inv_image (less_than <*lex*> less_than <*lex*> less_than) rank")
  show "wf (inv_image (less_than <*lex*> less_than <*lex*> less_than) rank)"
    by (intro wf_inv_image wf_lex_prod wf_less_than)
qed (metis exec_rank in_inv_image)

subsection \<open>What the environment does\<close>

text \<open>
  The transport settles the promise the negotiation is waiting for (\<open>Resolve\<close>,
  \<open>Reject\<close>), fires \<^verbatim>\<open>gattserverdisconnected\<close>, delivers a notification, or
  settles the oldest pending \<^verbatim>\<open>writeValue\<close>; user code outside any handler calls
  the connection that \<^verbatim>\<open>connect\<close> returned (line 175).
\<close>

datatype input =
    Resolve
  | Reject
  | GattDisconnected
  | Notification string
  | WriteDone
  | WriteFailed
  | User act

text \<open>\<^verbatim>\<open>!txItem.data\<close> (line 120): \<^verbatim>\<open>undefined\<close> and the empty string are falsy.\<close>

definition falsy :: "string option \<Rightarrow> bool" where
  "falsy d = (case d of None \<Rightarrow> True | Some s \<Rightarrow> s = [])"

text \<open>
  Lines 119-123, the fulfilment handler of the write of the \<^verbatim>\<open>txItem\<close> at address
  \<open>a\<close>; lines 124-126 follow as \<open>AfterCallback\<close>. Calling an \<^verbatim>\<open>undefined\<close>
  callback throws.
\<close>

definition writeOk :: "nat \<Rightarrow> conn \<Rightarrow> item list \<times> conn" where
  "writeOk a c =
     (let c0 = observe (Acked a) c
      in if falsy (data (heap c0 a)) then
           (let c1 = c0\<lparr> txDataQueue := tl (txDataQueue c0) \<rparr>
            in case callback (heap c1 a) of
                 None \<Rightarrow> throw [AfterCallback, CatchWrite] c1
               | Some prog \<Rightarrow>
                   (map Do prog @ [AfterCallback, CatchWrite], observe (Completed a) c1))
         else ([AfterCallback, CatchWrite], c0))"

text \<open>
  Lines 135-170. The handlers of lines 162 and 165 await nothing between them and run
  back to back once \<^verbatim>\<open>getCharacteristic(NORDIC_TX)\<close> is fulfilled, so they are one
  step.
\<close>

definition resolve :: "conn \<Rightarrow> conn" where
  "resolve c =
     (case stage c of
        AwaitDevice \<Rightarrow> c\<lparr> listening := True, stage := AwaitGatt \<rparr>
      | AwaitGatt \<Rightarrow> c\<lparr> btServer := True, stage := AwaitService \<rparr>
      | AwaitService \<Rightarrow> c\<lparr> stage := AwaitRX \<rparr>
      | AwaitRX \<Rightarrow> c\<lparr> rxCharacteristic := True, notifying := True,
                       stage := AwaitNotifications \<rparr>
      | AwaitNotifications \<Rightarrow> c\<lparr> stage := AwaitTX \<rparr>
      | AwaitTX \<Rightarrow>
          drain (map Do (fst (onConnected c)) @ [EmitOpen, CatchNeg])
            (observe (Connected True)
               (c\<lparr> txCharacteristic := True, txDataQueue := [], txInProgress := False,
                   isOpen := True, stage := Settled \<rparr>))
      | Settled \<Rightarrow> c)"

fun step :: "conn \<Rightarrow> input \<Rightarrow> conn" where
  "step c Resolve = resolve c"
| "step c Reject =
     (if stage c = Settled then c else drain [NegError] (c\<lparr> stage := Settled \<rparr>))"
| "step c GattDisconnected = (if listening c then drain [Do ActClose] c else c)"
| "step c (Notification d) =
     (if notifying c then drain (calls (ondata c)) (observe (Emitted EvData d) c) else c)"
| "step c WriteDone =
     (case pending c of
        [] \<Rightarrow> c
      | a # ps \<Rightarrow> (case writeOk a (c\<lparr> pending := ps \<rparr>) of (ag, c1) \<Rightarrow> drain ag c1))"
| "step c WriteFailed =
     (case pending c of
        [] \<Rightarrow> c
      | a # ps \<Rightarrow> drain [SendError] (observe (Nacked a) (c\<lparr> pending := ps \<rparr>)))"
| "step c (User a) = drain [Do a] c"

definition run :: "conn \<Rightarrow> input list \<Rightarrow> conn" where
  "run c ins = foldl step c ins"

subsection \<open>The convenience function \<^verbatim>\<open>write\<close> (lines 180-215)\<close>

text \<open>
  The properties the convenience layer keeps on its connection object:
  \<^verbatim>\<open>connection.received\<close> and \<^verbatim>\<open>connection.hadData\<close>.
\<close>

record session =
  received :: string
  hadData :: bool

text \<open>The \<^verbatim>\<open>data\<close> handler of lines 209-212.\<close>

definition on_data :: "session \<Rightarrow> string \<Rightarrow> session" where
  "on_data s d = s\<lparr> received := received s @ d, hadData := True \<rparr>"

text \<open>
  One firing of the timer function \<^verbatim>\<open>timeout\<close> (lines 186-194) with the current
  value of \<^verbatim>\<open>maxTime\<close>. \<^verbatim>\<open>connection.hadData && maxTime--\<close> tests the value
  \<^verbatim>\<open>maxTime\<close> had before the decrement, and only when \<^verbatim>\<open>hadData\<close> is set.
  Either the timer is set again for 250 ms, or \<^verbatim>\<open>callback\<close> is called with
  \<^verbatim>\<open>connection.received\<close> and no timer is left.
\<close>

datatype fired = Rearm int session | Answer string session

definition timeout :: "int \<Rightarrow> session \<Rightarrow> fired" where
  "timeout maxTime s =
     (if hadData s \<and> maxTime \<noteq> 0
      then Rearm (maxTime - 1) (s\<lparr> hadData := False \<rparr>)
      else Answer (received s) (s\<lparr> received := [], hadData := False \<rparr>))"

text \<open>
  The chain of timers over successive waits of 250 ms; each wait is given as the
  notifications that arrive during it. \<open>Answered n r s\<close>: the \<open>n\<close>-th firing called
  \<^verbatim>\<open>callback(r)\<close>. \<open>Waiting\<close>: the waits given are over and a timer is still set.
\<close>

datatype answer = Waiting | Answered nat string session

fun poll :: "int \<Rightarrow> session \<Rightarrow> string list list \<Rightarrow> answer" where
  "poll maxTime s [] = Waiting"
| "poll maxTime s (w # ws) =
     (case timeout maxTime (foldl on_data s w) of
        Rearm m s1 \<Rightarrow>
          (case poll m s1 ws of
             Waiting \<Rightarrow> Waiting
           | Answered n r s2 \<Rightarrow> Answered (Suc n) r s2)
      | Answer r s1 \<Rightarrow> Answered 1 r s1)"

text \<open>
  \<^verbatim>\<open>onWritten\<close> (lines 182-196) for a caller that passed a callback:
  \<^verbatim>\<open>var maxTime = 10\<close> and the first timer.
\<close>

definition onWritten :: "session \<Rightarrow> string list list \<Rightarrow> answer" where
  "onWritten s ws = poll 10 s ws"

text \<open>\<^verbatim>\<open>onWritten\<close> for a caller that passed none (line 195).\<close>

definition onWritten_no_callback :: "session \<Rightarrow> session" where
  "onWritten_no_callback s = s\<lparr> received := [] \<rparr>"

text \<open>The delay of every timer, in milliseconds (lines 188 and 194).\<close>

definition DELAY :: nat where
  "DELAY = 250"

text \<open>
  What the caller of the convenience \<^verbatim>\<open>write\<close> sees: its callback called with a
  string or with \<^verbatim>\<open>null\<close>, or an exception nobody catches.
\<close>

datatype fobs = UserCallback "string option" | Uncaught

text \<open>
  The function passed to \<^verbatim>\<open>connect\<close> at line 203, called with \<^verbatim>\<open>null\<close>
  (lines 204-208); \<open>has_cb\<close> says whether the caller of \<^verbatim>\<open>write\<close> passed a
  callback. Line 205 clears \<^verbatim>\<open>connection\<close>; line 206 calls \<^verbatim>\<open>callback(null)\<close>,
  which throws when \<^verbatim>\<open>callback\<close> is \<^verbatim>\<open>undefined\<close>; there is no
  \<^verbatim>\<open>return\<close>, so line 208 then reads \<^verbatim>\<open>connection.received\<close> of
  \<^verbatim>\<open>undefined\<close> and throws.
\<close>

definition connected_null :: "bool \<Rightarrow> fobs list" where
  "connected_null has_cb =
     (if has_cb then [UserCallback None, Uncaught] else [Uncaught])"

text \<open>
  The same function as the connection sees it: called with the connection it registers
  a \<^verbatim>\<open>data\<close> handler and writes (lines 208-213); neither that handler nor
  \<^verbatim>\<open>onWritten\<close> calls the connection. Called with \<^verbatim>\<open>null\<close> it does not touch
  the connection.
\<close>

definition write_connected :: "string \<Rightarrow> act list \<times> act list" where
  "write_connected d = ([ActOn EvData (Some []), ActWrite d (Some [])], [])"

text \<open>
  What the caller of \<^verbatim>\<open>write(data, callback)\<close> sees while a fresh connection is
  negotiated: each call \<^verbatim>\<open>callback(null)\<close> made by \<^verbatim>\<open>connection.close\<close>
  (line 96) runs lines 204-208.
\<close>

definition write_failure :: "bool \<Rightarrow> obs list \<Rightarrow> fobs list" where
  "write_failure has_cb t =
     concat (map (\<lambda>e. if e = Connected False then connected_null has_cb else []) t)"

text \<open>
  What \<^verbatim>\<open>connection.hadData\<close> holds at each firing of the timer: whether a
  notification arrived during the wait before it (for the first wait, also whether the
  flag was still set when \<^verbatim>\<open>onWritten\<close> ran; line 199 does not clear it).
\<close>

definition heard :: "session \<Rightarrow> string list list \<Rightarrow> bool list" where
  "heard s ws =
     (case ws of
        [] \<Rightarrow> []
      | w # ws' \<Rightarrow> (hadData s \<or> w \<noteq> []) # map (\<lambda>w. w \<noteq> []) ws')"

subsection \<open>Notions used in the properties\<close>

text \<open>A connection with its event handlers forgotten.\<close>

definition core :: "conn \<Rightarrow> conn" where
  "core c = c\<lparr> onopen := None, ondata := None, onclose := None \<rparr>"

text \<open>
  The observations that a closed connection can still produce, apart from \<^verbatim>\<open>data\<close>
  events: the answers of the transport to a write that was pending, the callback of
  that write, and exceptions.
\<close>

fun silent :: "obs \<Rightarrow> bool" where
  "silent (Acked _) = True"
| "silent (Nacked _) = True"
| "silent (Completed _) = True"
| "silent TypeError = True"
| "silent _ = False"

text \<open>
  Closed: the negotiation is over, and \<^verbatim>\<open>btServer\<close>, \<^verbatim>\<open>txCharacteristic\<close> and
  \<^verbatim>\<open>isOpen\<close> are all cleared, as \<^verbatim>\<open>close\<close> leaves them.
\<close>

definition closed :: "conn \<Rightarrow> bool" where
  "closed c \<longleftrightarrow> stage c = Settled \<and> \<not> btServer c \<and> \<not> txCharacteristic c \<and> \<not> isOpen c"

text \<open>
  From \<open>c\<close> to \<open>c'\<close> the connection stayed closed and produced only silent
  observations and \<^verbatim>\<open>data\<close> events for notifications in \<open>D\<close>.
\<close>

definition quietly :: "string set \<Rightarrow> conn \<Rightarrow> conn \<Rightarrow> bool" where
  "quietly D c c' \<longleftrightarrow>
     closed c' \<and>
     (\<exists>new. trace c' = trace c @ new \<and>
        (\<forall>e \<in> set new. silent e \<or> (\<exists>d \<in> D. e = Emitted EvData d)))"

text \<open>The number of \<^verbatim>\<open>close\<close> events emitted.\<close>

definition closes :: "obs list \<Rightarrow> nat" where
  "closes t = length (filter (\<lambda>e. e = Emitted EvClose []) t)"

text \<open>
  A connection emits \<^verbatim>\<open>close\<close> only while \<^verbatim>\<open>isOpen\<close>, and \<^verbatim>\<open>isOpen\<close> is
  set only by the last step of the negotiation.
\<close>

definition close_budget :: "conn \<Rightarrow> bool" where
  "close_budget c \<longleftrightarrow>
     closes (trace c) + (if isOpen c then 1 else 0) \<le> 1
     \<and> (stage c \<noteq> Settled \<longrightarrow> \<not> isOpen c \<and> closes (trace c) = 0)"

text \<open>
  The GATT session reference has been cleared: \<^verbatim>\<open>btServer\<close> is unset and the step
  that sets it (line 146) is in the past.
\<close>

definition session_gone :: "conn \<Rightarrow> bool" where
  "session_gone c \<longleftrightarrow> \<not> btServer c \<and> stage c \<noteq> AwaitDevice \<and> stage c \<noteq> AwaitGatt"

text \<open>
  The agenda from its first item that is not a call made by user code: the rest of the
  library's handler that is running.
\<close>

definition phase :: "item list \<Rightarrow> item list" where
  "phase ag = dropWhile is_Do ag"

text \<open>
  The forms that rest can take.
\<close>

definition shapes :: "item list set" where
  "shapes = {[], [AfterCallback, CatchWrite], [CatchWrite], [EmitOpen, CatchNeg], [CatchNeg],
             [SendError], [NegError]}"

text \<open>
  The structure of the write queue at every point of every handler: \<^verbatim>\<open>txCharacteristic\<close>
  and \<^verbatim>\<open>isOpen\<close> go together; nothing is queued before the negotiation is over; at most
  one write is pending, and it is the write of the head of the queue; addresses in the
  queue increase; only the pending head can have \<^verbatim>\<open>data\<close> undefined.
\<close>

definition invA :: "item list \<Rightarrow> conn \<Rightarrow> bool" where
  "invA ag c \<longleftrightarrow>
     phase ag \<in> shapes
     \<and> txCharacteristic c = isOpen c
     \<and> (stage c \<noteq> Settled \<longrightarrow>
          \<not> txCharacteristic c \<and> fresh c = 0 \<and> txDataQueue c = [] \<and> pending c = []
          \<and> \<not> txInProgress c)
     \<and> (pending c = [] \<or>
          txInProgress c \<and> txDataQueue c \<noteq> [] \<and> pending c = [hd (txDataQueue c)])
     \<and> (phase ag = [AfterCallback, CatchWrite] \<longrightarrow> pending c = [] \<and> txInProgress c)
     \<and> sorted_wrt (<) (txDataQueue c) \<and> (\<forall>a \<in> set (txDataQueue c). a < fresh c)
     \<and> (txCharacteristic c \<and> phase ag \<noteq> [SendError] \<longrightarrow>
          (\<forall>a \<in> set (txDataQueue c). data (heap c a) = None \<longrightarrow> a \<in> set (pending c)))
     \<and> (\<forall>a \<in> set (pending c). data (heap c a) \<noteq> Some [])
     \<and> (phase ag = [SendError] \<longrightarrow>
          pending c = [] \<and> (\<not> txCharacteristic c \<or> txInProgress c))"

text \<open>
  Lines 109-116 for the \<^verbatim>\<open>txItem\<close> at address \<open>a\<close> with remaining payload \<open>d\<close>.
\<close>

definition issue :: "nat \<Rightarrow> string \<Rightarrow> conn \<Rightarrow> conn" where
  "issue a d c = c\<lparr> heap := (heap c)(a := (heap c a)\<lparr> data := snd (takeChunk d) \<rparr>),
                      txInProgress := True \<rparr>"

text \<open>
  Lines 89-92 of \<^verbatim>\<open>close\<close>.
\<close>

definition closing :: "conn \<Rightarrow> conn" where
  "closing c = (observe Disconnect c)\<lparr> btServer := False, txCharacteristic := False,
                                        rxCharacteristic := False \<rparr>"

text \<open>
  Lines 163-169, up to the call of \<^verbatim>\<open>callback(connection)\<close>.
\<close>

definition opened :: "conn \<Rightarrow> conn" where
  "opened c = observe (Connected True)
     (c\<lparr> txCharacteristic := True, txDataQueue := [], txInProgress := False,
         isOpen := True, stage := Settled \<rparr>)"

text \<open>
  A pending write is fulfilled: its promise leaves \<open>pending\<close> (line 119).
\<close>

definition acked :: "nat \<Rightarrow> nat list \<Rightarrow> conn \<Rightarrow> conn" where
  "acked a ps c = observe (Acked a) (c\<lparr> pending := ps \<rparr>)"

text \<open>
  Line 121, \<^verbatim>\<open>txDataQueue.shift()\<close>, in the fulfilment handler.
\<close>

definition shifted :: "nat \<Rightarrow> nat list \<Rightarrow> conn \<Rightarrow> conn" where
  "shifted a ps c = (acked a ps c)\<lparr> txDataQueue := tl (txDataQueue c) \<rparr>"

text \<open>
  The agenda and the state with which the handler of an input starts; \<open>step\<close> runs
  that agenda (lemma \<open>step_start\<close>).
\<close>

definition start :: "conn \<Rightarrow> input \<Rightarrow> item list \<times> conn" where
  "start c i =
     (case i of
        Resolve \<Rightarrow>
          if stage c = AwaitTX
          then (map Do (fst (onConnected c)) @ [EmitOpen, CatchNeg], opened c)
          else ([], resolve c)
      | Reject \<Rightarrow> if stage c = Settled then ([], c) else ([NegError], c\<lparr> stage := Settled \<rparr>)
      | GattDisconnected \<Rightarrow> if listening c then ([Do ActClose], c) else ([], c)
      | Notification d \<Rightarrow>
          if notifying c then (calls (ondata c), observe (Emitted EvData d) c) else ([], c)
      | WriteDone \<Rightarrow>
          (case pending c of
             [] \<Rightarrow> ([], c)
           | a # ps \<Rightarrow>
               if falsy (data (heap c a)) then
                 (case callback (heap c a) of
                    None \<Rightarrow> ([SendError], observe TypeError (shifted a ps c))
                  | Some prog \<Rightarrow>
                      (map Do prog @ [AfterCallback, CatchWrite],
                       observe (Completed a) (shifted a ps c)))
               else ([AfterCallback, CatchWrite], acked a ps c))
      | WriteFailed \<Rightarrow>
          (case pending c of
             [] \<Rightarrow> ([], c)
           | a # ps \<Rightarrow> ([SendError], observe (Nacked a) (c\<lparr> pending := ps \<rparr>)))
      | User a \<Rightarrow> ([Do a], c))"

text \<open>
  The chunks handed to \<^verbatim>\<open>writeValue\<close> for the request at address \<open>a\<close>, in order.
\<close>

fun chunk_of :: "nat \<Rightarrow> obs \<Rightarrow> string list" where
  "chunk_of a (WriteValue b ch) = (if b = a then [ch] else [])"
| "chunk_of a _ = []"

text \<open>
  The payload with which the request at address \<open>a\<close> was enqueued.
\<close>

fun payload_of :: "nat \<Rightarrow> obs \<Rightarrow> string list" where
  "payload_of a (Enqueued b d) = (if b = a then [d] else [])"
| "payload_of a _ = []"

definition written :: "nat \<Rightarrow> obs list \<Rightarrow> string list" where
  "written a t = concat (map (chunk_of a) t)"

definition enq :: "nat \<Rightarrow> obs list \<Rightarrow> string list" where
  "enq a t = concat (map (payload_of a) t)"

text \<open>
  How many writes of request \<open>a\<close> the transport has reported successful, and how many
  times its callback has been called.
\<close>

definition acks :: "nat \<Rightarrow> obs list \<Rightarrow> nat" where
  "acks a t = count_list t (Acked a)"

definition dones :: "nat \<Rightarrow> obs list \<Rightarrow> nat" where
  "dones a t = count_list t (Completed a)"

text \<open>
  Wherever the callback of request \<open>a\<close> is called in a trace, all chunks of its payload
  \<open>d\<close> have been written and reported successful before.
\<close>

definition after_all :: "nat \<Rightarrow> string \<Rightarrow> obs list \<Rightarrow> bool" where
  "after_all a d t \<longleftrightarrow>
     (\<forall>t1 t2. t = t1 @ Completed a # t2 \<longrightarrow>
        written a t1 = chunks d \<and> acks a t1 = length (chunks d))"

text \<open>
  The chunks still to come from what is left in \<^verbatim>\<open>txItem.data\<close>.
\<close>

fun rest :: "string option \<Rightarrow> string list" where
  "rest None = []"
| "rest (Some r) = chunks r"

text \<open>
  The account of one request with payload \<open>d\<close>: what has been written is a prefix of the
  chunks of \<open>d\<close>; acknowledgements never exceed writes; the callback is called at most
  once and only with every chunk acknowledged; a request still queued has not completed;
  one that left the queue has completed, or was abandoned, or has no callback; and for a
  queued request what is written and what is left make up the chunks of \<open>d\<close>.
\<close>

definition item_ok :: "item list \<Rightarrow> conn \<Rightarrow> nat \<Rightarrow> string \<Rightarrow> bool" where
  "item_ok ag c a d \<longleftrightarrow>
     prefix (written a (trace c)) (chunks d)
     \<and> acks a (trace c) \<le> length (written a (trace c))
     \<and> (a \<in> set (pending c) \<longrightarrow> length (written a (trace c)) = Suc (acks a (trace c)))
     \<and> dones a (trace c) \<le> 1
     \<and> (dones a (trace c) = 1 \<longrightarrow> acks a (trace c) = length (chunks d))
     \<and> after_all a d (trace c)
     \<and> (a \<in> set (txDataQueue c) \<longrightarrow>
          dones a (trace c) = 0 \<and> acks a (trace c) < length (chunks d))
     \<and> (a \<notin> set (txDataQueue c) \<longrightarrow>
          dones a (trace c) = 1 \<or> acks a (trace c) < length (chunks d)
          \<or> callback (heap c a) = None)
     \<and> (a \<in> set (txDataQueue c) \<and> phase ag \<noteq> [SendError]
          \<and> (txCharacteristic c \<or> a \<in> set (pending c)) \<longrightarrow>
          written a (trace c) @ rest (data (heap c a)) = chunks d
          \<and> (a \<noteq> hd (txDataQueue c) \<longrightarrow> written a (trace c) = [])
          \<and> (a \<notin> set (pending c) \<longrightarrow> acks a (trace c) = length (written a (trace c))))"

text \<open>
  Every address below \<open>fresh\<close> was enqueued once and its account is in order; no
  address from \<open>fresh\<close> on occurs in the trace.
\<close>

definition invB :: "item list \<Rightarrow> conn \<Rightarrow> bool" where
  "invB ag c \<longleftrightarrow>
     (\<forall>a. if a < fresh c
          then \<exists>d. enq a (trace c) = [d] \<and> item_ok ag c a d
          else enq a (trace c) = [] \<and> written a (trace c) = []
               \<and> acks a (trace c) = 0 \<and> dones a (trace c) = 0)"

text \<open>
  Observations that concern no request.
\<close>

fun plain :: "obs \<Rightarrow> bool" where
  "plain (WriteValue _ _) = False"
| "plain (Enqueued _ _) = False"
| "plain (Acked _) = False"
| "plain (Completed _) = False"
| "plain _ = True"

text \<open>
  A request one of whose writes the transport has rejected is never pending again, keeps
  a write that was not acknowledged, and leaves the queue in the handler of the rejection.
\<close>

definition invN :: "item list \<Rightarrow> conn \<Rightarrow> bool" where
  "invN ag c \<longleftrightarrow>
     (\<forall>a. Nacked a \<in> set (trace c) \<longrightarrow>
        a < fresh c \<and> a \<notin> set (pending c)
        \<and> acks a (trace c) < length (written a (trace c))
        \<and> (a \<in> set (txDataQueue c) \<longrightarrow> phase ag = [SendError]))"

text \<open>
  The three invariants together.
\<close>

definition inv :: "item list \<Rightarrow> conn \<Rightarrow> bool" where
  "inv ag c \<longleftrightarrow> invA ag c \<and> invB ag c \<and> invN ag c"

text \<open>
  The addresses of the requests whose chunks are handed to \<^verbatim>\<open>writeValue\<close>, and of
  the requests enqueued, each in the order of the trace.
\<close>

fun addr_of :: "obs \<Rightarrow> nat list" where
  "addr_of (WriteValue b _) = [b]"
| "addr_of _ = []"

fun enq_addr_of :: "obs \<Rightarrow> nat list" where
  "enq_addr_of (Enqueued b _) = [b]"
| "enq_addr_of _ = []"

definition addrs :: "obs list \<Rightarrow> nat list" where
  "addrs t = concat (map addr_of t)"

definition enq_addrs :: "obs list \<Rightarrow> nat list" where
  "enq_addrs t = concat (map enq_addr_of t)"

text \<open>
  The queue can still be drained: \<^verbatim>\<open>txCharacteristic\<close> is set, and either no write
  is in progress, or one is pending, or its fulfilment handler is running.
\<close>

definition alive :: "item list \<Rightarrow> conn \<Rightarrow> bool" where
  "alive ag c \<longleftrightarrow>
     txCharacteristic c
     \<and> (\<not> txInProgress c \<or> pending c \<noteq> [] \<or> phase ag = [AfterCallback, CatchWrite])"

text \<open>
  Every chunk of the request at address \<open>a\<close> has been handed to \<^verbatim>\<open>writeValue\<close>.
\<close>

definition complete :: "conn \<Rightarrow> nat \<Rightarrow> bool" where
  "complete c a \<longleftrightarrow> (\<exists>d. enq a (trace c) = [d] \<and> written a (trace c) = chunks d)"

text \<open>
  Order: addresses are given out in the order of the calls of \<^verbatim>\<open>write\<close>; the
  addresses written never decrease and never exceed an address still queued; while the
  queue can be drained every request that has left it is complete; and every request
  before one that has been written is complete.
\<close>

definition invC :: "item list \<Rightarrow> conn \<Rightarrow> bool" where
  "invC ag c \<longleftrightarrow>
     enq_addrs (trace c) = [0..<fresh c]
     \<and> sorted (addrs (trace c))
     \<and> (\<forall>b \<in> set (addrs (trace c)). b < fresh c \<and> (\<forall>a \<in> set (txDataQueue c). b \<le> a))
     \<and> (alive ag c \<longrightarrow> (\<forall>a < fresh c. a \<notin> set (txDataQueue c) \<longrightarrow> complete c a))
     \<and> (\<forall>b \<in> set (addrs (trace c)). \<forall>a < b. complete c a)"

text \<open>
  Observations of the transfer of a request: a chunk handed to \<^verbatim>\<open>writeValue\<close>, the
  transport's answer, and the call of the request's callback.
\<close>

fun transfer :: "obs \<Rightarrow> bool" where
  "transfer (WriteValue _ _) = True"
| "transfer (Acked _) = True"
| "transfer (Nacked _) = True"
| "transfer (Completed _) = True"
| "transfer _ = False"

text \<open>
  After a failed write no write is pending and either the connection has no TX
  characteristic or \<^verbatim>\<open>txInProgress\<close> is left set (the \<^verbatim>\<open>.catch\<close> of line 127 does not
  reset it): \<^verbatim>\<open>writeChunk\<close> is not called again.
\<close>

definition stuck :: "conn \<Rightarrow> bool" where
  "stuck c \<longleftrightarrow>
     stage c = Settled \<and> pending c = [] \<and> (\<not> txCharacteristic c \<or> txInProgress c)"

text \<open>
  From \<open>c\<close> to \<open>c'\<close> the queue stayed stuck and nothing was transferred.
\<close>

definition idly :: "conn \<Rightarrow> conn \<Rightarrow> bool" where
  "idly c c' \<longleftrightarrow>
     stuck c' \<and> (\<exists>new. trace c' = trace c @ new \<and> (\<forall>e \<in> set new. \<not> transfer e))"

text \<open>
  While the \<^verbatim>\<open>.catch\<close> of line 127 runs: once line 129 has emptied the queue it stays
  empty, since only \<^verbatim>\<open>close\<close> runs while the TX characteristic is still set.
\<close>

definition emptied :: "item list \<Rightarrow> conn \<Rightarrow> bool" where
  "emptied ag c \<longleftrightarrow>
     ag = [SendError]
     \<or> txDataQueue c = [] \<and> AfterCallback \<notin> set ag
        \<and> (txCharacteristic c \<longrightarrow> set ag \<subseteq> {Do ActClose})"

section \<open>Verified properties\<close>

subsection \<open>Chunking\<close>

lemma chunks_short: "length d \<le> CHUNKSIZE \<Longrightarrow> chunks d = [d]"
  by (subst chunks.simps) (simp add: takeChunk_def)

lemma chunks_long:
  "\<not> length d \<le> CHUNKSIZE \<Longrightarrow> chunks d = take CHUNKSIZE d # chunks (drop CHUNKSIZE d)"
  by (subst chunks.simps) (simp add: takeChunk_def)

lemma chunks_not_Nil: "chunks d \<noteq> []"
proof (cases "length d \<le> CHUNKSIZE")
  case True
  then show ?thesis by (simp only: chunks_short) simp
next
  case False
  then show ?thesis by (simp only: chunks_long [OF False]) simp
qed

lemma takeChunk_long:
  "\<not> length d \<le> CHUNKSIZE \<Longrightarrow> (take CHUNKSIZE d, Some (drop CHUNKSIZE d)) = takeChunk d"
  by (simp add: takeChunk_def)

lemma concat_chunks: "concat (chunks d) = d"
proof (induction d rule: chunks.induct)
  case (1 d)
  show ?case
  proof (cases "length d \<le> CHUNKSIZE")
    case True
    then show ?thesis by (simp only: chunks_short) simp
  next
    case False
    have "concat (chunks (drop CHUNKSIZE d)) = drop CHUNKSIZE d"
      by (rule "1" [OF takeChunk_long [OF False] refl])
    then show ?thesis by (simp only: chunks_long [OF False]) simp
  qed
qed

lemma chunks_bounded: "ch \<in> set (chunks d) \<Longrightarrow> length ch \<le> CHUNKSIZE"
proof (induction d rule: chunks.induct)
  case (1 d)
  show ?case
  proof (cases "length d \<le> CHUNKSIZE")
    case True
    with "1.prems" show ?thesis by (simp only: chunks_short) simp
  next
    case False
    have IH: "ch \<in> set (chunks (drop CHUNKSIZE d)) \<Longrightarrow> length ch \<le> CHUNKSIZE"
      by (rule "1.IH" [OF takeChunk_long [OF False] refl])
    from "1.prems" have "ch = take CHUNKSIZE d \<or> ch \<in> set (chunks (drop CHUNKSIZE d))"
      by (simp only: chunks_long [OF False]) simp
    with IH show ?thesis by auto
  qed
qed

lemma chunks_full: "ch \<in> set (butlast (chunks d)) \<Longrightarrow> length ch = CHUNKSIZE"
proof (induction d rule: chunks.induct)
  case (1 d)
  show ?case
  proof (cases "length d \<le> CHUNKSIZE")
    case True
    with "1.prems" show ?thesis by (simp only: chunks_short) simp
  next
    case False
    have IH: "ch \<in> set (butlast (chunks (drop CHUNKSIZE d))) \<Longrightarrow> length ch = CHUNKSIZE"
      by (rule "1.IH" [OF takeChunk_long [OF False] refl])
    from "1.prems" have "ch = take CHUNKSIZE d \<or> ch \<in> set (butlast (chunks (drop CHUNKSIZE d)))"
      by (simp only: chunks_long [OF False]) (simp add: chunks_not_Nil)
    with IH False show ?thesis by auto
  qed
qed

subsection \<open>The wait for a response\<close>

lemma foldl_on_data:
  "received (foldl on_data s w) = received s @ concat w
   \<and> hadData (foldl on_data s w) = (hadData s \<or> w \<noteq> [])"
  by (induction w arbitrary: s) (auto simp: on_data_def)

lemma poll_answers:
  "0 \<le> m \<Longrightarrow> nat m < length ws \<Longrightarrow>
   \<exists>n s'. poll m s ws = Answered n (received s @ concat (concat (take n ws))) s'
     \<and> n = min (nat m + 1) (Suc (length (takeWhile (\<lambda>b. b) (heard s ws))))
     \<and> received s' = [] \<and> \<not> hadData s'"
proof (induction ws arbitrary: m s)
  case Nil
  then show ?case by simp
next
  case (Cons w ws)
  let ?s1 = "foldl on_data s w"
  show ?case
  proof (cases "hadData ?s1 \<and> m \<noteq> 0")
    case False
    then have "timeout m ?s1 = Answer (received ?s1) (?s1\<lparr> received := [], hadData := False \<rparr>)"
      by (simp add: timeout_def)
    with False Cons.prems show ?thesis
      by (auto simp: foldl_on_data heard_def)
  next
    case True
    then have t: "timeout m ?s1 = Rearm (m - 1) (?s1\<lparr> hadData := False \<rparr>)"
      by (simp add: timeout_def)
    from True Cons.prems have m: "0 \<le> m - 1" "nat (m - 1) < length ws" by auto
    from Cons.IH [OF m, of "?s1\<lparr> hadData := False \<rparr>"]
    obtain n s' where
      p: "poll (m - 1) (?s1\<lparr> hadData := False \<rparr>) ws
            = Answered n (received ?s1 @ concat (concat (take n ws))) s'"
      and n: "n = min (nat (m - 1) + 1)
                (Suc (length (takeWhile (\<lambda>b. b) (heard (?s1\<lparr> hadData := False \<rparr>) ws))))"
      and s': "received s' = []" "\<not> hadData s'"
      by auto
    have h: "heard s (w # ws) = True # heard (?s1\<lparr> hadData := False \<rparr>) ws"
      using True by (cases ws) (auto simp: heard_def foldl_on_data)
    from True Cons.prems have "nat m = Suc (nat (m - 1))" by auto
    with t p n s' h show ?thesis
      by (simp add: foldl_on_data)
  qed
qed

text \<open>
  C7 (amended). For a convenience \<^verbatim>\<open>write\<close> with a callback, once the payload is
  flushed the timer fires every 250 ms and tests \<^verbatim>\<open>connection.hadData\<close>. That flag
  is set by every notification and cleared only by the timer (\<^verbatim>\<open>write\<close> does not
  clear it, so at the first firing it may still be set from data received before the
  flush ended). A firing that finds the flag set, with polls left of the budget of 10,
  clears it and waits again; the first firing that finds it clear, or the eleventh
  firing, calls the callback once with the receive buffer and clears the buffer. So the
  callback is called at the latest after eleven waits, 2750 ms of timer delay, not
  2500 ms, and not necessarily after the first silent wait.
\<close>

theorem quiescence_poll:
  assumes "11 \<le> length ws"
  shows "\<exists>n s'. onWritten s ws = Answered n (received s @ concat (concat (take n ws))) s'
           \<and> n = min 11 (Suc (length (takeWhile (\<lambda>b. b) (heard s ws))))
           \<and> n * DELAY \<le> 2750
           \<and> received s' = [] \<and> \<not> hadData s'"
proof -
  from assms have "nat 10 < length ws" by simp
  from poll_answers [OF _ this, of s] obtain n s' where
    p: "poll 10 s ws = Answered n (received s @ concat (concat (take n ws))) s'"
    and n: "n = min (nat 10 + 1) (Suc (length (takeWhile (\<lambda>b. b) (heard s ws))))"
    and s': "received s' = []" "\<not> hadData s'"
    by auto
  from n have "n \<le> 11" by simp
  then have "n * DELAY \<le> 2750" by (simp add: DELAY_def)
  with p n s' show ?thesis by (auto simp: onWritten_def)
qed

theorem quiescence_poll_witness:
  "(11::nat) \<le> length [[''1'', ''rn''], [], [], [], [], [], [], [], [], [], []]
   \<and> onWritten \<lparr>received = [], hadData = False\<rparr>
         [[''1'', ''rn''], [], [], [], [], [], [], [], [], [], []]
       = Answered 2 ''1rn'' \<lparr>received = [], hadData = False\<rparr>"
  using quiescence_poll
    [of "[[''1'', ''rn''], [], [], [], [], [], [], [], [], [], []]"
        "\<lparr>received = [], hadData = False\<rparr>"]
  by (simp add: onWritten_def timeout_def on_data_def)

theorem quiescence_poll_counterexample:
  "onWritten \<lparr>received = [], hadData = False\<rparr>
     [[''x''], [''x''], [''x''], [''x''], [''x''], [''x''], [''x''], [''x''], [''x''], [''x'']]
     = Waiting
   \<and> onWritten \<lparr>received = [], hadData = False\<rparr>
     [[''x''], [''x''], [''x''], [''x''], [''x''], [''x''], [''x''], [''x''], [''x''], [''x''],
      [''y'']]
     = Answered 11 ''xxxxxxxxxxy'' \<lparr>received = [], hadData = False\<rparr>
   \<and> \<not> 11 * DELAY \<le> 2500
   \<and> onWritten \<lparr>received = [], hadData = True\<rparr>
     [[], [], [], [], [], [], [], [], [], [], []]
     = Answered 2 [] \<lparr>received = [], hadData = False\<rparr>"
  by (simp add: onWritten_def timeout_def on_data_def DELAY_def)

subsection \<open>Projections and general lemmas\<close>

lemma core_fields:
  "isOpen c = isOpen (core c)" "btServer c = btServer (core c)"
  "txCharacteristic c = txCharacteristic (core c)"
  "txDataQueue c = txDataQueue (core c)" "txInProgress c = txInProgress (core c)"
  "stage c = stage (core c)" "listening c = listening (core c)"
  "notifying c = notifying (core c)" "pending c = pending (core c)"
  "trace c = trace (core c)" "fresh c = fresh (core c)"
  by (simp_all add: core_def)

lemma exec_Do_inert:
  assumes "\<not> btServer c" "\<not> txCharacteristic c"
  shows "\<exists>c'. exec (Do a) ag c = (ag, c') \<and> core c' = core c"
proof (cases a)
  case (ActWrite d cb)
  with assms show ?thesis by (simp add: connection_write_def)
next
  case ActClose
  with assms show ?thesis by (simp add: connection_close_def)
next
  case (ActOn evt cb)
  then show ?thesis by (cases evt) (simp_all add: connection_on_def core_def)
qed

lemma drain_Do_inert:
  assumes "\<not> btServer c" "\<not> txCharacteristic c"
  shows "core (drain (map Do prog) c) = core c"
  using assms
proof (induction prog arbitrary: c)
  case Nil
  then show ?case by simp
next
  case (Cons a prog)
  from exec_Do_inert [OF Cons.prems, of a "map Do prog"] obtain c' where
    e: "exec (Do a) (map Do prog) c = (map Do prog, c')" and h: "core c' = core c"
    by blast
  from Cons.prems have "\<not> btServer c'" "\<not> txCharacteristic c'"
    by (simp_all add: core_fields [of c'] core_fields [of c] h)
  from Cons.IH [OF this] h e show ?case by simp
qed

lemma observe_fields [simp]:
  "isOpen (observe e c) = isOpen c" "btServer (observe e c) = btServer c"
  "txCharacteristic (observe e c) = txCharacteristic c"
  "rxCharacteristic (observe e c) = rxCharacteristic c"
  "txDataQueue (observe e c) = txDataQueue c" "txInProgress (observe e c) = txInProgress c"
  "heap (observe e c) = heap c" "fresh (observe e c) = fresh c"
  "onopen (observe e c) = onopen c" "ondata (observe e c) = ondata c"
  "onclose (observe e c) = onclose c" "onConnected (observe e c) = onConnected c"
  "stage (observe e c) = stage c" "listening (observe e c) = listening c"
  "notifying (observe e c) = notifying c" "pending (observe e c) = pending c"
  "trace (observe e c) = trace c @ [e]"
  by (simp_all add: observe_def)

lemma enqueue_fields [simp]:
  "isOpen (enqueue d cb c) = isOpen c" "btServer (enqueue d cb c) = btServer c"
  "txCharacteristic (enqueue d cb c) = txCharacteristic c"
  "rxCharacteristic (enqueue d cb c) = rxCharacteristic c"
  "txDataQueue (enqueue d cb c) = txDataQueue c @ [fresh c]"
  "txInProgress (enqueue d cb c) = txInProgress c"
  "heap (enqueue d cb c) = (heap c)(fresh c := \<lparr> data = Some d, callback = cb \<rparr>)"
  "fresh (enqueue d cb c) = Suc (fresh c)"
  "onopen (enqueue d cb c) = onopen c" "ondata (enqueue d cb c) = ondata c"
  "onclose (enqueue d cb c) = onclose c" "onConnected (enqueue d cb c) = onConnected c"
  "stage (enqueue d cb c) = stage c" "listening (enqueue d cb c) = listening c"
  "notifying (enqueue d cb c) = notifying c" "pending (enqueue d cb c) = pending c"
  "trace (enqueue d cb c) = trace c @ [Enqueued (fresh c) d]"
  by (simp_all add: enqueue_def)

lemma drain_invariant:
  assumes step: "\<And>it ag c ag' c'. I (it # ag) c \<Longrightarrow> exec it ag c = (ag', c') \<Longrightarrow> I ag' c'"
  shows "I ag c \<Longrightarrow> I [] (drain ag c)"
proof (induction ag c rule: drain.induct)
  case (1 c)
  then show ?case by simp
next
  case (2 it ag c)
  obtain ag' c' where e: "exec it ag c = (ag', c')" by (cases "exec it ag c")
  from step [OF "2.prems" e] have "I ag' c'" .
  from "2.IH" [OF e [symmetric] this] e show ?case by simp
qed

lemma unwind_no_EmitOpen: "EmitOpen \<notin> set ag \<Longrightarrow> EmitOpen \<notin> set (unwind ag)"
  by (induction ag rule: unwind.induct) auto

lemma quietly_refl: "closed c \<Longrightarrow> quietly D c c"
  by (simp add: quietly_def)

lemma quietly_observe:
  "quietly D c0 c \<Longrightarrow> silent e \<or> (\<exists>d \<in> D. e = Emitted EvData d) \<Longrightarrow>
   quietly D c0 (observe e c)"
  by (auto simp: quietly_def closed_def observe_def)

lemma writeChunk_closed:
  assumes "\<not> txCharacteristic c"
  shows "\<exists>c1. writeChunk c = Inl c1 \<and> trace c1 = trace c \<and> stage c1 = stage c
           \<and> btServer c1 = btServer c \<and> txCharacteristic c1 = txCharacteristic c
           \<and> isOpen c1 = isOpen c"
  using assms
  by (auto simp: writeChunk_def Let_def split: list.splits option.splits prod.splits)

lemma exec_closed:
  assumes "EmitOpen \<notin> set (it # ag)" "quietly D c0 c" "exec it ag c = (ag', c')"
  shows "EmitOpen \<notin> set ag' \<and> quietly D c0 c'"
proof (cases it)
  case (Do a)
  from assms(2) have "\<not> btServer c" "\<not> txCharacteristic c"
    by (simp_all add: quietly_def closed_def)
  with Do assms show ?thesis
    by (cases a)
       (auto simp: connection_write_def connection_close_def connection_on_def
                   quietly_def closed_def split: event.splits)
next
  case AfterCallback
  let ?c1 = "c\<lparr> txInProgress := False \<rparr>"
  from assms(2) have q: "quietly D c0 ?c1" by (simp add: quietly_def closed_def)
  show ?thesis
  proof (cases "txDataQueue c = []")
    case True
    with AfterCallback assms q show ?thesis by simp
  next
    case False
    from assms(2) have "\<not> txCharacteristic ?c1" by (simp add: quietly_def closed_def)
    from writeChunk_closed [OF this] obtain c1 where
      w: "writeChunk ?c1 = Inl c1" and f: "trace c1 = trace c" "stage c1 = stage c"
        "btServer c1 = btServer c" "txCharacteristic c1 = txCharacteristic c"
        "isOpen c1 = isOpen c"
      by auto
    from assms(2) f have "quietly D c0 (observe TypeError c1)"
      by (auto simp: quietly_def closed_def observe_def)
    with AfterCallback assms False w unwind_no_EmitOpen [of ag] show ?thesis
      by (auto simp: try_writeChunk_def throw_def)
  qed
next
  case SendError
  with assms show ?thesis by (auto simp: quietly_def closed_def)
next
  case EmitOpen
  with assms(1) show ?thesis by simp
next
  case CatchWrite
  with assms show ?thesis by simp
next
  case CatchNeg
  with assms show ?thesis by simp
next
  case NegError
  with assms show ?thesis by auto
qed

lemma drain_closed:
  assumes "EmitOpen \<notin> set ag" "quietly D c0 c"
  shows "quietly D c0 (drain ag c)"
proof -
  have "(\<lambda>ag c. EmitOpen \<notin> set ag \<and> quietly D c0 c) [] (drain ag c)"
  proof (rule drain_invariant)
    show "EmitOpen \<notin> set ag \<and> quietly D c0 c" using assms by simp
  next
    fix it ag c ag' c'
    assume "EmitOpen \<notin> set (it # ag) \<and> quietly D c0 c" "exec it ag c = (ag', c')"
    then show "EmitOpen \<notin> set ag' \<and> quietly D c0 c'"
      using exec_closed [of it ag D c0 c ag' c'] by blast
  qed
  then show ?thesis by simp
qed

lemma writeOk_closed:
  assumes "quietly D c0 c" "writeOk a c = (ag, c')"
  shows "EmitOpen \<notin> set ag \<and> quietly D c0 c'"
  using assms
  by (auto simp: writeOk_def Let_def throw_def quietly_def closed_def observe_def
           split: if_splits option.splits)

lemma step_closed:
  assumes "closed c"
  shows "quietly {d. i = Notification d} c (step c i)"
proof -
  let ?D = "{d. i = Notification d}"
  have r: "quietly ?D c c" using assms by (rule quietly_refl)
  show ?thesis
  proof (cases i)
    case Resolve
    with assms r show ?thesis by (simp add: resolve_def closed_def)
  next
    case Reject
    with assms r show ?thesis by (simp add: closed_def)
  next
    case GattDisconnected
    have "quietly ?D c (drain [Do ActClose] c)"
      by (rule drain_closed) (use r in simp_all)
    with GattDisconnected r show ?thesis by simp
  next
    case (Notification d)
    have "EmitOpen \<notin> set (calls (ondata c))"
      by (auto simp: calls_def split: option.splits)
    moreover have "quietly ?D c (observe (Emitted EvData d) c)"
      by (rule quietly_observe [OF r]) (simp add: Notification)
    ultimately have "quietly ?D c (drain (calls (ondata c)) (observe (Emitted EvData d) c))"
      by (rule drain_closed)
    with Notification r show ?thesis by simp
  next
    case WriteDone
    show ?thesis
    proof (cases "pending c")
      case Nil
      with WriteDone r show ?thesis by simp
    next
      case (Cons a ps)
      obtain ag c1 where w: "writeOk a (c\<lparr> pending := ps \<rparr>) = (ag, c1)"
        by (cases "writeOk a (c\<lparr> pending := ps \<rparr>)")
      from r have "quietly ?D c (c\<lparr> pending := ps \<rparr>)" by (simp add: quietly_def closed_def)
      from writeOk_closed [OF this w] have "EmitOpen \<notin> set ag" "quietly ?D c c1" by simp_all
      then have "quietly ?D c (drain ag c1)" by (rule drain_closed)
      with WriteDone Cons w show ?thesis by simp
    qed
  next
    case WriteFailed
    show ?thesis
    proof (cases "pending c")
      case Nil
      with WriteFailed r show ?thesis by simp
    next
      case (Cons a ps)
      from r have "quietly ?D c (observe (Nacked a) (c\<lparr> pending := ps \<rparr>))"
        by (simp add: quietly_def closed_def observe_def)
      then have "quietly ?D c (drain [SendError] (observe (Nacked a) (c\<lparr> pending := ps \<rparr>)))"
        by (intro drain_closed) simp_all
      with WriteFailed Cons show ?thesis by simp
    qed
  next
    case (User a)
    have "quietly ?D c (drain [Do a] c)"
      by (rule drain_closed) (use r in simp_all)
    with User show ?thesis by simp
  qed
qed

lemma quietly_trans:
  "quietly D a b \<Longrightarrow> quietly E b c \<Longrightarrow> quietly (D \<union> E) a c"
  unfolding quietly_def by (elim conjE exE) (simp, blast)

lemma quietly_mono: "quietly D a b \<Longrightarrow> D \<subseteq> E \<Longrightarrow> quietly E a b"
  unfolding quietly_def by (elim conjE exE) blast

lemma run_closed:
  assumes "closed c"
  shows "quietly {d. Notification d \<in> set ins} c (run c ins)"
  using assms
proof (induction ins rule: rev_induct)
  case Nil
  then show ?case by (simp add: run_def quietly_refl)
next
  case (snoc i ins)
  let ?c = "run c ins"
  from snoc have q: "quietly {d. Notification d \<in> set ins} c ?c" by simp
  then have "closed ?c" by (simp add: quietly_def)
  from step_closed [OF this, of i] have "quietly {d. i = Notification d} ?c (step ?c i)" .
  from quietly_trans [OF q this] have "quietly ({d. Notification d \<in> set ins} \<union> {d. i = Notification d}) c (step ?c i)" .
  then have "quietly {d. Notification d \<in> set (ins @ [i])} c (step ?c i)"
    by (rule quietly_mono) auto
  then show ?case by (simp add: run_def)
qed

lemma closes_simps [simp]:
  "closes [] = 0"
  "closes (e # t) = (if e = Emitted EvClose [] then 1 else 0) + closes t"
  "closes (t @ u) = closes t + closes u"
  by (simp_all add: closes_def)

lemma writeChunk_budget:
  "writeChunk c = r \<Longrightarrow> c1 \<in> {c'. r = Inl c' \<or> r = Inr c'} \<Longrightarrow>
   closes (trace c1) = closes (trace c) \<and> isOpen c1 = isOpen c \<and> stage c1 = stage c"
  by (auto simp: writeChunk_def Let_def observe_def
           split: list.splits option.splits prod.splits if_splits)

lemma try_writeChunk_budget:
  assumes "try_writeChunk ag c = (ag', c')"
  shows "closes (trace c') = closes (trace c) \<and> isOpen c' = isOpen c \<and> stage c' = stage c"
proof (cases "writeChunk c")
  case (Inl c1)
  with writeChunk_budget [of c "Inl c1" c1] assms show ?thesis
    by (auto simp: try_writeChunk_def throw_def observe_def)
next
  case (Inr c1)
  with writeChunk_budget [of c "Inr c1" c1] assms show ?thesis
    by (auto simp: try_writeChunk_def)
qed

lemma exec_budget:
  assumes "close_budget c" "exec it ag c = (ag', c')"
  shows "close_budget c'"
proof (cases it)
  case (Do a)
  show ?thesis
  proof (cases a)
    case (ActWrite d cb)
    show ?thesis
    proof (cases "txCharacteristic c")
      case False
      with Do ActWrite assms show ?thesis by (simp add: connection_write_def)
    next
      case True
      let ?c1 = "enqueue d cb c"
      from assms(1) have b: "close_budget ?c1" by (simp add: close_budget_def observe_def enqueue_def)
      show ?thesis
      proof (cases "txInProgress c")
        case True
        with Do ActWrite assms \<open>txCharacteristic c\<close> b show ?thesis
          by (simp add: connection_write_def Let_def observe_def)
      next
        case False
        with Do ActWrite assms \<open>txCharacteristic c\<close>
        have "try_writeChunk ag ?c1 = (ag', c')"
          by (simp add: connection_write_def Let_def observe_def)
        from try_writeChunk_budget [OF this] b show ?thesis
          by (simp add: close_budget_def)
      qed
    qed
  next
    case ActClose
    with Do assms show ?thesis
      by (auto simp: connection_close_def Let_def observe_def close_budget_def split: if_splits)
  next
    case (ActOn evt cb)
    with Do assms show ?thesis
      by (cases evt) (auto simp: connection_on_def close_budget_def)
  qed
next
  case AfterCallback
  from assms(1) have b: "close_budget (c\<lparr> txInProgress := False \<rparr>)"
    by (simp add: close_budget_def)
  show ?thesis
  proof (cases "txDataQueue c = []")
    case True
    with AfterCallback assms b show ?thesis by auto
  next
    case False
    with AfterCallback assms have "try_writeChunk ag (c\<lparr> txInProgress := False \<rparr>) = (ag', c')"
      by simp
    from try_writeChunk_budget [OF this] b show ?thesis by (simp add: close_budget_def)
  qed
next
  case EmitOpen
  with assms show ?thesis by (auto simp: close_budget_def observe_def)
next
  case CatchWrite
  with assms show ?thesis by auto
next
  case CatchNeg
  with assms show ?thesis by auto
next
  case SendError
  with assms show ?thesis by (auto simp: close_budget_def)
next
  case NegError
  with assms show ?thesis by auto
qed

lemma drain_budget: "close_budget c \<Longrightarrow> close_budget (drain ag c)"
proof -
  assume b: "close_budget c"
  have "(\<lambda>ag c. close_budget c) [] (drain ag c)"
    by (rule drain_invariant) (use b exec_budget in blast)+
  then show ?thesis .
qed

lemma writeOk_budget:
  assumes "close_budget c" "writeOk a c = (ag, c')"
  shows "close_budget c'"
  using assms
  by (auto simp: writeOk_def Let_def throw_def close_budget_def observe_def
           split: if_splits option.splits)

lemma step_budget:
  assumes "close_budget c"
  shows "close_budget (step c i)"
proof (cases i)
  case Resolve
  show ?thesis
  proof (cases "stage c = AwaitTX")
    case True
    with assms have "close_budget (observe (Connected True)
               (c\<lparr> txCharacteristic := True, txDataQueue := [], txInProgress := False,
                   isOpen := True, stage := Settled \<rparr>))"
      by (simp add: close_budget_def observe_def)
    with Resolve True show ?thesis by (simp del: drain.simps add: resolve_def drain_budget)
  next
    case False
    with Resolve assms show ?thesis
      by (cases "stage c") (simp_all add: resolve_def close_budget_def)
  qed
next
  case Reject
  from assms have "close_budget (c\<lparr> stage := Settled \<rparr>)" by (simp add: close_budget_def)
  with Reject assms show ?thesis by (simp del: drain.simps add: drain_budget)
next
  case GattDisconnected
  with assms show ?thesis by (simp del: drain.simps add: drain_budget)
next
  case (Notification d)
  from assms have "close_budget (observe (Emitted EvData d) c)"
    by (simp add: close_budget_def observe_def)
  with Notification assms show ?thesis by (simp del: drain.simps add: drain_budget)
next
  case WriteDone
  show ?thesis
  proof (cases "pending c")
    case Nil
    with WriteDone assms show ?thesis by simp
  next
    case (Cons a ps)
    obtain ag c1 where w: "writeOk a (c\<lparr> pending := ps \<rparr>) = (ag, c1)"
      by (cases "writeOk a (c\<lparr> pending := ps \<rparr>)")
    from assms have "close_budget (c\<lparr> pending := ps \<rparr>)" by (simp add: close_budget_def)
    from writeOk_budget [OF this w] WriteDone Cons w show ?thesis by (simp del: drain.simps add: drain_budget)
  qed
next
  case WriteFailed
  show ?thesis
  proof (cases "pending c")
    case Nil
    with WriteFailed assms show ?thesis by simp
  next
    case (Cons a ps)
    from assms have "close_budget (observe (Nacked a) (c\<lparr> pending := ps \<rparr>))"
      by (simp add: close_budget_def observe_def)
    with WriteFailed Cons show ?thesis by (simp del: drain.simps add: drain_budget)
  qed
next
  case (User a)
  with assms show ?thesis by (simp del: drain.simps add: drain_budget)
qed

lemma run_budget: "close_budget c \<Longrightarrow> close_budget (run c ins)"
  by (induction ins rule: rev_induct) (simp_all add: run_def step_budget)

lemma connect_budget: "close_budget (connect cb)"
  by (simp add: close_budget_def connect_def)

lemmas ops = run_def connect_def resolve_def observe_def connection_close_def
  connection_write_def enqueue_def connection_on_def try_writeChunk_def writeChunk_def throw_def
  writeOk_def falsy_def calls_def takeChunk_def CHUNKSIZE_def Let_def

lemma writeChunk_gone:
  "writeChunk c = r \<Longrightarrow> c1 \<in> {c'. r = Inl c' \<or> r = Inr c'} \<Longrightarrow>
   btServer c1 = btServer c \<and> stage c1 = stage c"
  by (auto simp: writeChunk_def Let_def observe_def
           split: list.splits option.splits prod.splits if_splits)

lemma try_writeChunk_gone:
  assumes "try_writeChunk ag c = (ag', c')"
  shows "btServer c' = btServer c \<and> stage c' = stage c"
proof (cases "writeChunk c")
  case (Inl c1)
  with writeChunk_gone [of c "Inl c1" c1] assms show ?thesis
    by (auto simp: try_writeChunk_def throw_def observe_def)
next
  case (Inr c1)
  with writeChunk_gone [of c "Inr c1" c1] assms show ?thesis
    by (auto simp: try_writeChunk_def)
qed

lemma exec_gone:
  assumes "session_gone c" "exec it ag c = (ag', c')"
  shows "session_gone c'"
proof (cases it)
  case (Do a)
  show ?thesis
  proof (cases a)
    case (ActWrite d cb)
    show ?thesis
    proof (cases "txCharacteristic c")
      case False
      with Do ActWrite assms show ?thesis by (simp add: connection_write_def)
    next
      case True
      let ?c1 = "enqueue d cb c"
      from assms(1) have b: "session_gone ?c1" by (simp add: session_gone_def observe_def enqueue_def)
      show ?thesis
      proof (cases "txInProgress c")
        case True
        with Do ActWrite assms \<open>txCharacteristic c\<close> b show ?thesis
          by (simp add: connection_write_def Let_def observe_def enqueue_def)
      next
        case False
        with Do ActWrite assms \<open>txCharacteristic c\<close>
        have "try_writeChunk ag ?c1 = (ag', c')"
          by (simp add: connection_write_def Let_def observe_def enqueue_def)
        from try_writeChunk_gone [OF this] b show ?thesis
          by (simp add: session_gone_def)
      qed
    qed
  next
    case ActClose
    with Do assms show ?thesis by (simp add: connection_close_def session_gone_def)
  next
    case (ActOn evt cb)
    with Do assms show ?thesis by (cases evt) (auto simp: connection_on_def session_gone_def)
  qed
next
  case AfterCallback
  from assms(1) have b: "session_gone (c\<lparr> txInProgress := False \<rparr>)"
    by (simp add: session_gone_def)
  show ?thesis
  proof (cases "txDataQueue c = []")
    case True
    with AfterCallback assms b show ?thesis by auto
  next
    case False
    with AfterCallback assms have "try_writeChunk ag (c\<lparr> txInProgress := False \<rparr>) = (ag', c')"
      by simp
    from try_writeChunk_gone [OF this] b show ?thesis by (simp add: session_gone_def)
  qed
next
  case EmitOpen
  with assms show ?thesis by (auto simp: session_gone_def observe_def)
next
  case CatchWrite
  with assms show ?thesis by auto
next
  case CatchNeg
  with assms show ?thesis by auto
next
  case SendError
  with assms show ?thesis by (auto simp: session_gone_def)
next
  case NegError
  with assms show ?thesis by auto
qed

lemma drain_gone: "session_gone c \<Longrightarrow> session_gone (drain ag c)"
proof -
  assume b: "session_gone c"
  have "(\<lambda>ag c. session_gone c) [] (drain ag c)"
    by (rule drain_invariant) (use b exec_gone in blast)+
  then show ?thesis .
qed

lemma writeOk_gone:
  assumes "session_gone c" "writeOk a c = (ag, c')"
  shows "session_gone c'"
  using assms
  by (auto simp: writeOk_def Let_def throw_def session_gone_def observe_def
           split: if_splits option.splits)

lemma step_gone:
  assumes "session_gone c"
  shows "session_gone (step c i)"
proof (cases i)
  case Resolve
  show ?thesis
  proof (cases "stage c = AwaitTX")
    case True
    with assms have "session_gone (observe (Connected True)
               (c\<lparr> txCharacteristic := True, txDataQueue := [], txInProgress := False,
                   isOpen := True, stage := Settled \<rparr>))"
      by (simp add: session_gone_def observe_def)
    with Resolve True show ?thesis by (simp del: drain.simps add: resolve_def drain_gone)
  next
    case False
    with Resolve assms show ?thesis
      by (cases "stage c") (simp_all add: resolve_def session_gone_def)
  qed
next
  case Reject
  from assms have "session_gone (c\<lparr> stage := Settled \<rparr>)" by (simp add: session_gone_def)
  with Reject assms show ?thesis by (simp del: drain.simps add: drain_gone)
next
  case GattDisconnected
  with assms show ?thesis by (simp del: drain.simps add: drain_gone)
next
  case (Notification d)
  from assms have "session_gone (observe (Emitted EvData d) c)"
    by (simp add: session_gone_def observe_def)
  with Notification assms show ?thesis by (simp del: drain.simps add: drain_gone)
next
  case WriteDone
  show ?thesis
  proof (cases "pending c")
    case Nil
    with WriteDone assms show ?thesis by simp
  next
    case (Cons a ps)
    obtain ag c1 where w: "writeOk a (c\<lparr> pending := ps \<rparr>) = (ag, c1)"
      by (cases "writeOk a (c\<lparr> pending := ps \<rparr>)")
    from assms have "session_gone (c\<lparr> pending := ps \<rparr>)" by (simp add: session_gone_def)
    from writeOk_gone [OF this w] WriteDone Cons w show ?thesis
      by (simp del: drain.simps add: drain_gone)
  qed
next
  case WriteFailed
  show ?thesis
  proof (cases "pending c")
    case Nil
    with WriteFailed assms show ?thesis by simp
  next
    case (Cons a ps)
    from assms have "session_gone (observe (Nacked a) (c\<lparr> pending := ps \<rparr>))"
      by (simp add: session_gone_def observe_def)
    with WriteFailed Cons show ?thesis by (simp del: drain.simps add: drain_gone)
  qed
next
  case (User a)
  with assms show ?thesis by (simp del: drain.simps add: drain_gone)
qed

lemma run_gone: "session_gone c \<Longrightarrow> session_gone (run c ins)"
  by (induction ins rule: rev_induct) (simp_all add: run_def step_gone)

text \<open>
  C10. Over the lifetime of a connection the \<^verbatim>\<open>close\<close> event is emitted at most once.
  Once the GATT session reference is cleared, a later \<^verbatim>\<open>close()\<close>, also the one made
  by the \<^verbatim>\<open>gattserverdisconnected\<close> listener, changes no state and emits nothing, and
  the reference stays cleared whatever happens next.
\<close>

theorem close_once_idempotent:
  "closes (trace (run (connect cb) ins)) \<le> 1
   \<and> (\<not> btServer c \<longrightarrow> step c (User ActClose) = c \<and> step c GattDisconnected = c)
   \<and> (session_gone c \<longrightarrow> session_gone (run c ins'))"
proof (intro conjI impI)
  from run_budget [OF connect_budget, of cb ins]
  show "closes (trace (run (connect cb) ins)) \<le> 1"
    by (simp add: close_budget_def split: if_splits)
next
  assume "\<not> btServer c"
  then show "step c (User ActClose) = c" by (simp add: connection_close_def)
next
  assume "\<not> btServer c"
  then show "step c GattDisconnected = c" by (simp add: connection_close_def)
next
  assume "session_gone c"
  then show "session_gone (run c ins')" by (rule run_gone)
qed

theorem close_once_idempotent_witness:
  "session_gone (run (connect ([], []))
      [Resolve, Resolve, Resolve, Resolve, Resolve, Resolve, User ActClose])
   \<and> session_gone (run (run (connect ([], []))
      [Resolve, Resolve, Resolve, Resolve, Resolve, Resolve, User ActClose]) [GattDisconnected])
   \<and> closes (trace (run (connect ([], []))
      [Resolve, Resolve, Resolve, Resolve, Resolve, Resolve, User ActClose, GattDisconnected])) = 1"
  using close_once_idempotent [of "([], [])"
      "[Resolve, Resolve, Resolve, Resolve, Resolve, Resolve, User ActClose, GattDisconnected]"
      "run (connect ([], []))
        [Resolve, Resolve, Resolve, Resolve, Resolve, Resolve, User ActClose]"
      "[GattDisconnected]"]
  by (simp add: ops session_gone_def closes_def)

lemma close_closes:
  assumes "stage c = Settled" "btServer c"
  shows "closed (drain [Do ActClose] c)"
proof -
  obtain ag c1 where e: "connection_close [] c = (ag, c1)" by (cases "connection_close [] c")
  with assms have "closed c1" "EmitOpen \<notin> set ag"
    by (auto simp: connection_close_def Let_def closed_def calls_def
             split: if_splits option.splits)
  then have "quietly {} c1 (drain ag c1)"
    by (intro drain_closed quietly_refl)
  with e show ?thesis by (simp add: quietly_def)
qed




text \<open>
  C4. When the negotiation fails, the callback of \<^verbatim>\<open>connect\<close> is to be called once
  with \<^verbatim>\<open>null\<close>. The code does not do so when \<^verbatim>\<open>requestDevice\<close> or
  \<^verbatim>\<open>gatt.connect\<close> is rejected: \<^verbatim>\<open>close\<close> finds \<^verbatim>\<open>btServer\<close> unset, calls
  nothing, and the callback is never called afterwards either.
\<close>

theorem negotiation_failure_unreported:
  "trace (run (connect cb) [Reject]) = []
   \<and> trace (run (connect cb) [Resolve, Reject]) = []
   \<and> Connected b \<notin> set (trace (run (connect cb) (Reject # ins)))
   \<and> Connected b \<notin> set (trace (run (connect cb) (Resolve # Reject # ins)))"
proof -
  have t1: "trace (run (connect cb) [Reject]) = []" and c1: "closed (run (connect cb) [Reject])"
    by (simp_all add: ops closed_def)
  have t2: "trace (run (connect cb) [Resolve, Reject]) = []"
    and c2: "closed (run (connect cb) [Resolve, Reject])"
    by (simp_all add: ops closed_def)
  have r1: "run (connect cb) (Reject # ins) = run (run (connect cb) [Reject]) ins"
    and r2: "run (connect cb) (Resolve # Reject # ins) = run (run (connect cb) [Resolve, Reject]) ins"
    by (simp_all add: run_def)
  have n1: "\<forall>e \<in> set (trace (run (connect cb) (Reject # ins))). \<forall>b. e \<noteq> Connected b"
    using run_closed [OF c1, of ins] unfolding r1 quietly_def t1 by auto
  have n2: "\<forall>e \<in> set (trace (run (connect cb) (Resolve # Reject # ins))). \<forall>b. e \<noteq> Connected b"
    using run_closed [OF c2, of ins] unfolding r2 quietly_def t2 by auto
  from t1 t2 n1 n2 show ?thesis by blast
qed

text \<open>
  A failure after the GATT session exists is reported: \<^verbatim>\<open>callback(null)\<close> once.
\<close>

lemma negotiation_failure_reported:
  "trace (run (connect (ok, [])) [Resolve, Resolve, Reject]) = [Disconnect, Connected False]
   \<and> trace (run (connect (ok, [])) [Resolve, Resolve, Resolve, Reject])
        = [Disconnect, Connected False]
   \<and> trace (run (connect (ok, [])) [Resolve, Resolve, Resolve, Resolve, Reject])
        = [Disconnect, Connected False]
   \<and> trace (run (connect (ok, [])) [Resolve, Resolve, Resolve, Resolve, Resolve, Reject])
        = [Disconnect, Connected False]"
  by (simp add: ops)

text \<open>
  C9. \<^verbatim>\<open>connection.write(data)\<close> without a callback: the chunk is sent, and when the
  transport reports success line 122 calls \<^verbatim>\<open>undefined\<close>; the TypeError lands in the
  \<^verbatim>\<open>.catch\<close> of line 127, which empties the queue and closes the connection.
\<close>

theorem write_without_callback:
  "trace (run (connect ([], []))
     [Resolve, Resolve, Resolve, Resolve, Resolve, Resolve,
      User (ActWrite ''abc'' None), WriteDone])
   = [Connected True, Emitted EvOpen [], Enqueued 0 ''abc'', WriteValue 0 ''abc'', Acked 0,
      TypeError, Disconnect, Emitted EvClose []]
   \<and> \<not> isOpen (run (connect ([], []))
     [Resolve, Resolve, Resolve, Resolve, Resolve, Resolve,
      User (ActWrite ''abc'' None), WriteDone])"
  by (simp add: ops)

text \<open>
  C8. The convenience \<^verbatim>\<open>write\<close> on a fresh connection whose negotiation fails after
  the GATT session exists: without a callback line 206 throws; with one, the callback is
  called with \<^verbatim>\<open>null\<close> and line 208 throws. When the failure comes before the GATT
  session exists the callback is not called at all.
\<close>

theorem facade_write_failure:
  "write_failure False
     (trace (run (connect (write_connected d)) [Resolve, Resolve, Resolve, Reject]))
     = [Uncaught]
   \<and> write_failure True
     (trace (run (connect (write_connected d)) [Resolve, Resolve, Resolve, Reject]))
     = [UserCallback None, Uncaught]
   \<and> write_failure True (trace (run (connect (write_connected d)) [Reject])) = []"
  by (simp add: ops write_failure_def connected_null_def write_connected_def)

subsection \<open>The write queue: structure\<close>

lemma phase_simps [simp]:
  "phase [] = []"
  "phase (Do a # ag) = phase ag"
  "phase (map Do prog @ ag) = phase ag"
  "phase (calls f @ ag) = phase ag"
  "phase (AfterCallback # ag) = AfterCallback # ag"
  "phase (EmitOpen # ag) = EmitOpen # ag"
  "phase (CatchWrite # ag) = CatchWrite # ag"
  "phase (CatchNeg # ag) = CatchNeg # ag"
  "phase (SendError # ag) = SendError # ag"
  "phase (NegError # ag) = NegError # ag"
  by (simp_all add: phase_def calls_def dropWhile_append split: option.splits)

lemma unwind_phase: "unwind ag = unwind (phase ag)"
  by (induction ag rule: unwind.induct) (simp_all add: phase_def)

lemma phase_unwind:
  assumes "phase ag \<in> shapes"
  shows "phase (unwind ag) = unwind ag \<and> unwind ag \<in> {[], [SendError], [NegError]}"
proof -
  from assms have "unwind (phase ag) \<in> {[], [SendError], [NegError]}"
    by (auto simp: shapes_def)
  then show ?thesis by (auto simp: unwind_phase [of ag])
qed

lemma writeChunk_unfold:
  "writeChunk c =
     (case txDataQueue c of
        [] \<Rightarrow> Inl c
      | a # _ \<Rightarrow>
          (case data (heap c a) of
             None \<Rightarrow> Inl c
           | Some d \<Rightarrow>
               if txCharacteristic c
               then Inr (observe (WriteValue a (fst (takeChunk d)))
                          ((issue a d c)\<lparr> pending := pending c @ [a] \<rparr>))
               else Inl (issue a d c)))"
  by (simp add: writeChunk_def issue_def Let_def split_beta split: list.splits option.splits)

lemma writeChunk_Inr:
  assumes "writeChunk c = Inr c'"
  obtains a q d where "txDataQueue c = a # q" "data (heap c a) = Some d" "txCharacteristic c"
    "c' = observe (WriteValue a (fst (takeChunk d))) ((issue a d c)\<lparr> pending := pending c @ [a] \<rparr>)"
proof (cases "txDataQueue c")
  case Nil
  with assms show ?thesis by (simp add: writeChunk_unfold)
next
  case (Cons a q)
  show ?thesis
  proof (cases "data (heap c a)")
    case None
    with Cons assms show ?thesis by (simp add: writeChunk_unfold)
  next
    case (Some d)
    show ?thesis
    proof (cases "txCharacteristic c")
      case True
      with Cons Some assms
      have "c' = observe (WriteValue a (fst (takeChunk d)))
                   ((issue a d c)\<lparr> pending := pending c @ [a] \<rparr>)"
        by (simp add: writeChunk_unfold)
      with Cons Some True show ?thesis by (rule that)
    next
      case False
      with Cons Some assms show ?thesis by (simp add: writeChunk_unfold)
    qed
  qed
qed

lemma writeChunk_Inl:
  assumes "writeChunk c = Inl c'"
  obtains "txDataQueue c = []" "c' = c"
  | a q where "txDataQueue c = a # q" "data (heap c a) = None" "c' = c"
  | a q d where "txDataQueue c = a # q" "data (heap c a) = Some d" "\<not> txCharacteristic c"
      "c' = issue a d c"
proof (cases "txDataQueue c")
  case Nil
  with assms have "c' = c" by (simp add: writeChunk_unfold)
  with Nil show ?thesis by (rule that(1))
next
  case (Cons a q)
  show ?thesis
  proof (cases "data (heap c a)")
    case None
    with Cons assms have "c' = c" by (simp add: writeChunk_unfold)
    with Cons None show ?thesis by (rule that(2))
  next
    case (Some d)
    show ?thesis
    proof (cases "txCharacteristic c")
      case True
      with Cons Some assms show ?thesis by (simp add: writeChunk_unfold)
    next
      case False
      with Cons Some assms have "c' = issue a d c" by (simp add: writeChunk_unfold)
      with Cons Some False show ?thesis by (rule that(3))
    qed
  qed
qed

lemma issue_fields [simp]:
  "isOpen (issue a d c) = isOpen c" "btServer (issue a d c) = btServer c"
  "txCharacteristic (issue a d c) = txCharacteristic c"
  "txDataQueue (issue a d c) = txDataQueue c"
  "txInProgress (issue a d c) = True"
  "heap (issue a d c) = (heap c)(a := (heap c a)\<lparr> data := snd (takeChunk d) \<rparr>)"
  "fresh (issue a d c) = fresh c"
  "onopen (issue a d c) = onopen c" "ondata (issue a d c) = ondata c"
  "onclose (issue a d c) = onclose c" "onConnected (issue a d c) = onConnected c"
  "stage (issue a d c) = stage c" "listening (issue a d c) = listening c"
  "notifying (issue a d c) = notifying c" "pending (issue a d c) = pending c"
  "trace (issue a d c) = trace c"
  by (simp_all add: issue_def)

lemma takeChunk_rest: "snd (takeChunk d) \<noteq> Some []"
  by (simp add: takeChunk_def CHUNKSIZE_def)

lemma closing_fields [simp]:
  "isOpen (closing c) = isOpen c" "btServer (closing c) = False"
  "txCharacteristic (closing c) = False"
  "txDataQueue (closing c) = txDataQueue c"
  "txInProgress (closing c) = txInProgress c"
  "heap (closing c) = heap c" "fresh (closing c) = fresh c"
  "onopen (closing c) = onopen c" "ondata (closing c) = ondata c"
  "onclose (closing c) = onclose c" "onConnected (closing c) = onConnected c"
  "stage (closing c) = stage c" "listening (closing c) = listening c"
  "notifying (closing c) = notifying c" "pending (closing c) = pending c"
  "trace (closing c) = trace c @ [Disconnect]"
  by (simp_all add: closing_def)

lemma connection_on_fields [simp]:
  "isOpen (connection_on evt cb c) = isOpen c" "btServer (connection_on evt cb c) = btServer c"
  "txCharacteristic (connection_on evt cb c) = txCharacteristic c"
  "txDataQueue (connection_on evt cb c) = txDataQueue c"
  "txInProgress (connection_on evt cb c) = txInProgress c"
  "heap (connection_on evt cb c) = heap c" "fresh (connection_on evt cb c) = fresh c"
  "onConnected (connection_on evt cb c) = onConnected c"
  "stage (connection_on evt cb c) = stage c" "listening (connection_on evt cb c) = listening c"
  "notifying (connection_on evt cb c) = notifying c" "pending (connection_on evt cb c) = pending c"
  "trace (connection_on evt cb c) = trace c"
  by (cases evt; simp add: connection_on_def)+

lemma connection_close_unfold:
  "connection_close ag c =
     (if btServer c then
        if isOpen c
        then (calls (onclose c) @ ag, observe (Emitted EvClose []) ((closing c)\<lparr> isOpen := False \<rparr>))
        else (map Do (snd (onConnected c)) @ ag, observe (Connected False) (closing c))
      else (ag, c))"
  by (simp add: connection_close_def closing_def Let_def)

lemma exec_cases [consumes 1, case_names Write_noop Write_queued Write_sent Write_fault
    Close_noop Close_open Close_neg On After_idle After_sent After_fault Emit Marker
    Send_error Neg_error]:
  assumes "exec it ag c = (ag', c')"
  obtains
    d cb where "it = Do (ActWrite d cb)" "\<not> txCharacteristic c" "ag' = ag" "c' = c"
  | d cb where "it = Do (ActWrite d cb)" "txCharacteristic c" "txInProgress c" "ag' = ag"
      "c' = enqueue d cb c"
  | d cb where "it = Do (ActWrite d cb)" "txCharacteristic c" "\<not> txInProgress c" "ag' = ag"
      "writeChunk (enqueue d cb c) = Inr c'"
  | d cb c1 where "it = Do (ActWrite d cb)" "txCharacteristic c" "\<not> txInProgress c"
      "ag' = unwind ag" "writeChunk (enqueue d cb c) = Inl c1" "c' = observe TypeError c1"
  | "it = Do ActClose" "\<not> btServer c" "ag' = ag" "c' = c"
  | "it = Do ActClose" "btServer c" "isOpen c" "ag' = calls (onclose c) @ ag"
      "c' = observe (Emitted EvClose []) ((closing c)\<lparr> isOpen := False \<rparr>)"
  | "it = Do ActClose" "btServer c" "\<not> isOpen c" "ag' = map Do (snd (onConnected c)) @ ag"
      "c' = observe (Connected False) (closing c)"
  | evt cb where "it = Do (ActOn evt cb)" "ag' = ag" "c' = connection_on evt cb c"
  | "it = AfterCallback" "txDataQueue c = []" "ag' = ag" "c' = c\<lparr> txInProgress := False \<rparr>"
  | "it = AfterCallback" "txDataQueue c \<noteq> []" "ag' = ag"
      "writeChunk (c\<lparr> txInProgress := False \<rparr>) = Inr c'"
  | c1 where "it = AfterCallback" "txDataQueue c \<noteq> []" "ag' = unwind ag"
      "writeChunk (c\<lparr> txInProgress := False \<rparr>) = Inl c1" "c' = observe TypeError c1"
  | "it = EmitOpen" "ag' = calls (onopen c) @ ag" "c' = observe (Emitted EvOpen []) c"
  | "it = CatchWrite \<or> it = CatchNeg" "ag' = ag" "c' = c"
  | "it = SendError" "ag' = Do ActClose # ag" "c' = c\<lparr> txDataQueue := [] \<rparr>"
  | "it = NegError" "ag' = Do ActClose # ag" "c' = c"
proof (cases it)
  case (Do a)
  show ?thesis
  proof (cases a)
    case (ActWrite d cb)
    show ?thesis
    proof (cases "txCharacteristic c")
      case False
      with Do ActWrite assms have "ag' = ag" "c' = c" by (simp_all add: connection_write_def)
      with Do ActWrite False show ?thesis by (intro that(1)) simp_all
    next
      case True
      show ?thesis
      proof (cases "txInProgress c")
        case t: True
        with Do ActWrite assms True have "ag' = ag" "c' = enqueue d cb c"
          by (simp_all add: connection_write_def)
        with Do ActWrite True t show ?thesis by (intro that(2)) simp_all
      next
        case f: False
        with Do ActWrite assms True have e: "try_writeChunk ag (enqueue d cb c) = (ag', c')"
          by (simp add: connection_write_def)
        show ?thesis
        proof (cases "writeChunk (enqueue d cb c)")
          case (Inl c1)
          with e have "ag' = unwind ag" "c' = observe TypeError c1"
            by (simp_all add: try_writeChunk_def throw_def)
          with Do ActWrite True f Inl show ?thesis by (intro that(4)) simp_all
        next
          case (Inr c1)
          with e have "ag' = ag" "c1 = c'" by (simp_all add: try_writeChunk_def)
          with Do ActWrite True f Inr show ?thesis by (intro that(3)) simp_all
        qed
      qed
    qed
  next
    case ActClose
    show ?thesis
    proof (cases "btServer c")
      case False
      with Do ActClose assms have "ag' = ag" "c' = c" by (simp_all add: connection_close_unfold)
      with Do ActClose False show ?thesis by (intro that(5)) simp_all
    next
      case True
      show ?thesis
      proof (cases "isOpen c")
        case t: True
        with Do ActClose assms True have "ag' = calls (onclose c) @ ag"
          "c' = observe (Emitted EvClose []) ((closing c)\<lparr> isOpen := False \<rparr>)"
          by (simp_all add: connection_close_unfold)
        with Do ActClose True t show ?thesis by (intro that(6)) simp_all
      next
        case f: False
        with Do ActClose assms True have "ag' = map Do (snd (onConnected c)) @ ag"
          "c' = observe (Connected False) (closing c)"
          by (simp_all add: connection_close_unfold)
        with Do ActClose True f show ?thesis by (intro that(7)) simp_all
      qed
    qed
  next
    case (ActOn evt cb)
    with Do assms have "ag' = ag" "c' = connection_on evt cb c" by simp_all
    with Do ActOn show ?thesis by (intro that(8)) simp_all
  qed
next
  case AfterCallback
  show ?thesis
  proof (cases "txDataQueue c = []")
    case True
    with AfterCallback assms have "ag' = ag" "c' = c\<lparr> txInProgress := False \<rparr>" by simp_all
    with AfterCallback True show ?thesis by (intro that(9)) simp_all
  next
    case False
    with AfterCallback assms
    have e: "try_writeChunk ag (c\<lparr> txInProgress := False \<rparr>) = (ag', c')" by simp
    show ?thesis
    proof (cases "writeChunk (c\<lparr> txInProgress := False \<rparr>)")
      case (Inl c1)
      with e have "ag' = unwind ag" "c' = observe TypeError c1"
        by (simp_all add: try_writeChunk_def throw_def)
      with AfterCallback False Inl show ?thesis by (intro that(11)) simp_all
    next
      case (Inr c1)
      with e have "ag' = ag" "c1 = c'" by (simp_all add: try_writeChunk_def)
      with AfterCallback False Inr show ?thesis by (intro that(10)) simp_all
    qed
  qed
next
  case EmitOpen
  with assms have "ag' = calls (onopen c) @ ag" "c' = observe (Emitted EvOpen []) c" by simp_all
  with EmitOpen show ?thesis by (intro that(12)) simp_all
next
  case CatchWrite
  with assms have "ag' = ag" "c' = c" by simp_all
  with CatchWrite show ?thesis by (intro that(13)) simp_all
next
  case CatchNeg
  with assms have "ag' = ag" "c' = c" by simp_all
  with CatchNeg show ?thesis by (intro that(13)) simp_all
next
  case SendError
  with assms have "ag' = Do ActClose # ag" "c' = c\<lparr> txDataQueue := [] \<rparr>" by simp_all
  with SendError show ?thesis by (intro that(14)) simp_all
next
  case NegError
  with assms have "ag' = Do ActClose # ag" "c' = c" by simp_all
  with NegError show ?thesis by (intro that(15)) simp_all
qed

lemma step_start: "step c i = drain (fst (start c i)) (snd (start c i))"
proof (cases i)
  case Resolve
  then show ?thesis
    by (cases "stage c") (simp_all add: start_def resolve_def opened_def)
next
  case WriteDone
  then show ?thesis
    by (simp add: start_def writeOk_def acked_def shifted_def throw_def Let_def
             split: list.splits option.splits)
qed (simp_all add: start_def split: list.splits)

lemma run_invariant:
  assumes init: "I [] c0"
    and exec: "\<And>it ag c ag' c'. I (it # ag) c \<Longrightarrow> exec it ag c = (ag', c') \<Longrightarrow> I ag' c'"
    and start: "\<And>c i. I [] c \<Longrightarrow> I (fst (start c i)) (snd (start c i))"
  shows "I [] (run c0 ins)"
proof (induction ins rule: rev_induct)
  case Nil
  from init show ?case by (simp add: run_def)
next
  case (snoc i ins)
  from start [OF snoc] have "I (fst (start (run c0 ins) i)) (snd (start (run c0 ins) i))" .
  with exec have "I [] (drain (fst (start (run c0 ins) i)) (snd (start (run c0 ins) i)))"
    by (rule drain_invariant)
  then show ?case by (simp add: run_def step_start)
qed

lemma opened_fields [simp]:
  "isOpen (opened c) = True" "btServer (opened c) = btServer c"
  "txCharacteristic (opened c) = True" "txDataQueue (opened c) = []"
  "txInProgress (opened c) = False" "heap (opened c) = heap c" "fresh (opened c) = fresh c"
  "onopen (opened c) = onopen c" "ondata (opened c) = ondata c"
  "onclose (opened c) = onclose c" "onConnected (opened c) = onConnected c"
  "stage (opened c) = Settled" "listening (opened c) = listening c"
  "notifying (opened c) = notifying c" "pending (opened c) = pending c"
  "trace (opened c) = trace c @ [Connected True]"
  by (simp_all add: opened_def)

lemma acked_fields [simp]:
  "isOpen (acked a ps c) = isOpen c" "btServer (acked a ps c) = btServer c"
  "txCharacteristic (acked a ps c) = txCharacteristic c"
  "txDataQueue (acked a ps c) = txDataQueue c"
  "txInProgress (acked a ps c) = txInProgress c" "heap (acked a ps c) = heap c"
  "fresh (acked a ps c) = fresh c"
  "onopen (acked a ps c) = onopen c" "ondata (acked a ps c) = ondata c"
  "onclose (acked a ps c) = onclose c" "onConnected (acked a ps c) = onConnected c"
  "stage (acked a ps c) = stage c" "listening (acked a ps c) = listening c"
  "notifying (acked a ps c) = notifying c" "pending (acked a ps c) = ps"
  "trace (acked a ps c) = trace c @ [Acked a]"
  by (simp_all add: acked_def)

lemma shifted_fields [simp]:
  "isOpen (shifted a ps c) = isOpen c" "btServer (shifted a ps c) = btServer c"
  "txCharacteristic (shifted a ps c) = txCharacteristic c"
  "txDataQueue (shifted a ps c) = tl (txDataQueue c)"
  "txInProgress (shifted a ps c) = txInProgress c" "heap (shifted a ps c) = heap c"
  "fresh (shifted a ps c) = fresh c"
  "onopen (shifted a ps c) = onopen c" "ondata (shifted a ps c) = ondata c"
  "onclose (shifted a ps c) = onclose c" "onConnected (shifted a ps c) = onConnected c"
  "stage (shifted a ps c) = stage c" "listening (shifted a ps c) = listening c"
  "notifying (shifted a ps c) = notifying c" "pending (shifted a ps c) = ps"
  "trace (shifted a ps c) = trace c @ [Acked a]"
  by (simp_all add: shifted_def)

lemma resolve_fields:
  assumes "stage c \<noteq> AwaitTX"
  shows "isOpen (resolve c) = isOpen c"
    "txCharacteristic (resolve c) = txCharacteristic c"
    "txDataQueue (resolve c) = txDataQueue c"
    "txInProgress (resolve c) = txInProgress c" "heap (resolve c) = heap c"
    "fresh (resolve c) = fresh c"
    "pending (resolve c) = pending c"
    "trace (resolve c) = trace c"
    "stage (resolve c) = Settled \<longleftrightarrow> stage c = Settled"
  using assms by (cases "stage c"; simp add: resolve_def)+

lemma start_cases [case_names Idle Advance Final Rejected Gatt Notif Acked_more Acked_last
    Acked_fault Nacked User]:
  obtains "start c i = ([], c)"
  | "i = Resolve" "stage c \<noteq> AwaitTX" "start c i = ([], resolve c)"
  | "i = Resolve" "stage c = AwaitTX"
      "start c i = (map Do (fst (onConnected c)) @ [EmitOpen, CatchNeg], opened c)"
  | "i = Reject" "stage c \<noteq> Settled" "start c i = ([NegError], c\<lparr> stage := Settled \<rparr>)"
  | "i = GattDisconnected" "start c i = ([Do ActClose], c)"
  | d where "i = Notification d" "start c i = (calls (ondata c), observe (Emitted EvData d) c)"
  | a ps where "i = WriteDone" "pending c = a # ps" "\<not> falsy (data (heap c a))"
      "start c i = ([AfterCallback, CatchWrite], acked a ps c)"
  | a ps prog where "i = WriteDone" "pending c = a # ps" "falsy (data (heap c a))"
      "callback (heap c a) = Some prog"
      "start c i = (map Do prog @ [AfterCallback, CatchWrite], observe (Completed a) (shifted a ps c))"
  | a ps where "i = WriteDone" "pending c = a # ps" "falsy (data (heap c a))"
      "callback (heap c a) = None"
      "start c i = ([SendError], observe TypeError (shifted a ps c))"
  | a ps where "i = WriteFailed" "pending c = a # ps"
      "start c i = ([SendError], observe (Nacked a) (c\<lparr> pending := ps \<rparr>))"
  | a where "i = User a" "start c i = ([Do a], c)"
proof (cases i)
  case Resolve
  then show ?thesis
    by (cases "stage c = AwaitTX") (auto simp: start_def intro: that(2,3))
next
  case Reject
  then show ?thesis
    by (cases "stage c = Settled") (auto simp: start_def intro: that(1,4))
next
  case GattDisconnected
  then show ?thesis
    by (cases "listening c") (auto simp: start_def intro: that(1,5))
next
  case (Notification d)
  then show ?thesis
    by (cases "notifying c") (auto simp: start_def intro: that(1,6))
next
  case WriteDone
  show ?thesis
  proof (cases "pending c")
    case Nil
    with WriteDone show ?thesis by (auto simp: start_def intro: that(1))
  next
    case (Cons a ps)
    show ?thesis
    proof (cases "falsy (data (heap c a))")
      case False
      with WriteDone Cons show ?thesis by (auto simp: start_def intro: that(7))
    next
      case True
      with WriteDone Cons show ?thesis
        by (cases "callback (heap c a)") (auto simp: start_def intro: that(8,9))
    qed
  qed
next
  case WriteFailed
  then show ?thesis
    by (cases "pending c") (auto simp: start_def intro: that(1,10))
next
  case (User a)
  then show ?thesis by (auto simp: start_def intro: that(11))
qed

lemma shape_elims:
  "AfterCallback # ag \<in> shapes \<longleftrightarrow> ag = [CatchWrite]"
  "EmitOpen # ag \<in> shapes \<longleftrightarrow> ag = [CatchNeg]"
  "CatchWrite # ag \<in> shapes \<longleftrightarrow> ag = []"
  "CatchNeg # ag \<in> shapes \<longleftrightarrow> ag = []"
  "SendError # ag \<in> shapes \<longleftrightarrow> ag = []"
  "NegError # ag \<in> shapes \<longleftrightarrow> ag = []"
  "[] \<in> shapes"
  by (auto simp: shapes_def)

lemma invA_fields:
  assumes "invA ag c"
    and "phase ag' = phase ag"
    and "txCharacteristic c' = txCharacteristic c" "isOpen c' = isOpen c" "stage c' = stage c"
      "fresh c' = fresh c" "txDataQueue c' = txDataQueue c" "pending c' = pending c"
      "txInProgress c' = txInProgress c" "heap c' = heap c"
  shows "invA ag' c'"
  using assms unfolding invA_def by auto

lemma invA_Do: "invA (Do a # ag) c \<Longrightarrow> invA ag c"
  by (auto simp: invA_def)

lemma invA_pending:
  "invA ag c \<Longrightarrow> \<not> txInProgress c \<Longrightarrow> pending c = []"
  by (auto simp: invA_def)

lemma invA_enqueue:
  assumes "invA ag c" "txCharacteristic c"
  shows "invA ag (enqueue d cb c)"
  using assms unfolding invA_def
  by (auto simp: sorted_wrt_append less_Suc_eq)

lemma invA_sent:
  assumes "invA ag c" "pending c = []" "\<not> txInProgress c" "writeChunk c = Inr c'"
  shows "invA ag c'"
  using assms(4)
proof (cases rule: writeChunk_Inr)
  case (1 a q d)
  from assms(1,3) have ph: "phase ag \<noteq> [AfterCallback, CatchWrite]" 
    by (auto simp: invA_def)
  from assms(1,3) 1(3) have ph2: "phase ag \<noteq> [SendError]" by (auto simp: invA_def)
  from assms(1,2,3) ph2 1(1,3) have others: "\<forall>b \<in> set (a # q). data (heap c b) \<noteq> None"
    unfolding invA_def by auto
  from assms(1) have base: "phase ag \<in> shapes" "txCharacteristic c = isOpen c"
    "stage c = Settled" "sorted_wrt (<) (txDataQueue c)" "\<forall>a \<in> set (txDataQueue c). a < fresh c"
    using 1(3) unfolding invA_def by auto
  show ?thesis
    unfolding invA_def 1(4)
    using base ph ph2 others 1(1,2,3) assms(2) by (auto simp: takeChunk_rest)
qed

lemma invA_no_fault:
  assumes "invA ag c" "pending c = []" "txCharacteristic c" "txDataQueue c \<noteq> []"
    "\<not> txInProgress c"
  shows "writeChunk c \<noteq> Inl c1"
proof
  assume "writeChunk c = Inl c1"
  then show False
  proof (cases rule: writeChunk_Inl)
    case 1
    with assms(4) show ?thesis by simp
  next
    case (2 a q)
    with assms(1,2,3,5) show ?thesis unfolding invA_def by auto
  next
    case (3 a q d)
    with assms(3) show ?thesis by simp
  qed
qed

lemma invA_fault:
  assumes "invA ag c" "pending c = []" "txDataQueue c \<noteq> []" "writeChunk c = Inl c1"
    "\<not> txInProgress c"
  shows "invA (unwind ag) (observe TypeError c1)"
proof -
  from assms have ntx: "\<not> txCharacteristic c" using invA_no_fault by blast
  from assms(1) have "phase ag \<in> shapes" by (simp add: invA_def)
  from phase_unwind [OF this]
  have u: "phase (unwind ag) = unwind ag" "unwind ag \<in> {[], [SendError], [NegError]}"
    by simp_all
  then have s: "phase (unwind ag) \<in> shapes" "phase (unwind ag) \<noteq> [AfterCallback, CatchWrite]"
    by (auto simp: shapes_def)
  from assms(4) show ?thesis
  proof (cases rule: writeChunk_Inl)
    case 1
    with assms(3) show ?thesis by simp
  next
    case (2 a q)
    with assms(1,2) ntx s show ?thesis unfolding invA_def by auto
  next
    case (3 a q d)
    with assms(1,2) ntx s show ?thesis unfolding invA_def by auto
  qed
qed

lemma invA_closing:
  assumes "invA ag c" "phase ag' = phase ag"
  shows "invA ag' (observe e ((closing c)\<lparr> isOpen := False \<rparr>))"
  using assms unfolding invA_def by auto

lemma exec_invA:
  assumes "invA (it # ag) c" "exec it ag c = (ag', c')"
  shows "invA ag' c'"
  using assms(2)
proof (cases rule: exec_cases)
  case (Write_noop d cb)
  with assms(1) show ?thesis by (simp add: invA_Do)
next
  case (Write_queued d cb)
  from assms(1) \<open>it = Do _\<close> have "invA ag c" by (simp add: invA_Do)
  with Write_queued show ?thesis by (simp add: invA_enqueue)
next
  case (Write_sent d cb)
  from assms(1) \<open>it = Do _\<close> have "invA ag c" by (simp add: invA_Do)
  with Write_sent have i: "invA ag (enqueue d cb c)" by (simp add: invA_enqueue)
  from invA_pending [OF i] Write_sent have "pending (enqueue d cb c) = []" by simp
  from invA_sent [OF i this _ Write_sent(5)] Write_sent show ?thesis by simp
next
  case (Write_fault d cb c1)
  from assms(1) \<open>it = Do _\<close> have "invA ag c" by (simp add: invA_Do)
  with Write_fault have i: "invA ag (enqueue d cb c)" by (simp add: invA_enqueue)
  from invA_pending [OF i] Write_fault have "pending (enqueue d cb c) = []" by simp
  from invA_no_fault [OF i this, of c1] Write_fault show ?thesis by simp
next
  case Close_noop
  with assms(1) show ?thesis by (simp add: invA_Do)
next
  case Close_open
  from assms(1) \<open>it = Do _\<close> have "invA ag c" by (simp add: invA_Do)
  with Close_open show ?thesis by (simp add: invA_closing)
next
  case Close_neg
  from assms(1) \<open>it = Do _\<close> have "invA ag c" by (simp add: invA_Do)
  note this \<open>\<not> isOpen c\<close>
  then have "invA ag' (observe (Connected False) ((closing c)\<lparr> isOpen := False \<rparr>))"
    using Close_neg by (simp add: invA_closing)
  moreover from \<open>\<not> isOpen c\<close> have "(closing c)\<lparr> isOpen := False \<rparr> = closing c"
    by (simp add: closing_def observe_def)
  ultimately show ?thesis using Close_neg by simp
next
  case (On evt cb)
  with assms(1) show ?thesis by (intro invA_fields [OF assms(1)]) simp_all
next
  case After_idle
  with assms(1) show ?thesis unfolding invA_def by (auto simp: shape_elims)
next
  case After_sent
  from assms(1) After_sent(1) have i: "invA ag (c\<lparr> txInProgress := False \<rparr>)"
    unfolding invA_def by (auto simp: shape_elims shapes_def)
  from invA_pending [OF i] have "pending (c\<lparr> txInProgress := False \<rparr>) = []" by simp
  from invA_sent [OF i this _ After_sent(4)] After_sent(3) show ?thesis by simp
next
  case (After_fault c1)
  from assms(1) After_fault(1) have i: "invA ag (c\<lparr> txInProgress := False \<rparr>)"
    unfolding invA_def by (auto simp: shape_elims shapes_def)
  from invA_pending [OF i] have "pending (c\<lparr> txInProgress := False \<rparr>) = []" by simp
  from invA_fault [OF i this _ After_fault(4)] After_fault show ?thesis by simp
next
  case Emit
  with assms(1) show ?thesis unfolding invA_def by (auto simp: shape_elims shapes_def)
next
  case Marker
  with assms(1) show ?thesis unfolding invA_def by (auto simp: shape_elims)
next
  case Send_error
  with assms(1) show ?thesis unfolding invA_def by (auto simp: shape_elims)
next
  case Neg_error
  with assms(1) show ?thesis unfolding invA_def by (auto simp: shape_elims)
qed

lemma invA_in_flight:
  assumes "invA ag c" "pending c = a # ps"
  shows "ps = []" "txInProgress c" "txDataQueue c \<noteq> []" "hd (txDataQueue c) = a"
    "data (heap c a) \<noteq> Some []" "stage c = Settled"
  using assms unfolding invA_def by auto

lemma sorted_wrt_hd_notin_tl:
  "sorted_wrt (<) (q :: nat list) \<Longrightarrow> q \<noteq> [] \<Longrightarrow> hd q \<notin> set (tl q)"
  by (cases q) auto

lemma sorted_wrt_tl: "sorted_wrt P q \<Longrightarrow> sorted_wrt P (tl q)"
  by (cases q) auto

lemma phase_calls [simp]: "phase (calls f) = []" "phase (map Do prog) = []"
  using phase_simps(4) [of f "[]"] phase_simps(3) [of prog "[]"] by simp_all

lemma start_invA:
  assumes "invA [] c"
  shows "invA (fst (start c i)) (snd (start c i))"
proof (cases rule: start_cases [of c i])
  case Idle
  with assms show ?thesis by simp
next
  case Advance
  from assms resolve_fields [OF Advance(2)] have "invA [] (resolve c)"
    unfolding invA_def by auto
  with Advance show ?thesis by simp
next
  case Final
  with assms show ?thesis unfolding invA_def by (auto simp: shapes_def)
next
  case Rejected
  with assms show ?thesis unfolding invA_def by (auto simp: shapes_def)
next
  case Gatt
  with assms show ?thesis by (auto simp: invA_def)
next
  case (Notif d)
  with assms show ?thesis by (auto simp: invA_def)
next
  case (Acked_more a ps)
  note f = invA_in_flight [OF assms Acked_more(2)]
  from Acked_more(3) have d: "data (heap c a) \<noteq> None"
    by (cases "data (heap c a)") (simp_all add: falsy_def)
  from assms have "\<forall>b \<in> set (txDataQueue c). txCharacteristic c \<longrightarrow> data (heap c b) = None \<longrightarrow> b = a"
    using Acked_more(2) unfolding invA_def by auto
  with d have "\<forall>b \<in> set (txDataQueue c). txCharacteristic c \<longrightarrow> data (heap c b) \<noteq> None"
    by blast
  with assms f Acked_more(4) show ?thesis
    unfolding invA_def by (auto simp: shapes_def)
next
  case (Acked_last a ps prog)
  note f = invA_in_flight [OF assms Acked_last(2)]
  from assms have s: "sorted_wrt (<) (txDataQueue c)" by (simp add: invA_def)
  from sorted_wrt_hd_notin_tl [OF s f(3)] f(4) have n: "a \<notin> set (tl (txDataQueue c))" by simp
  from assms have "\<forall>b \<in> set (txDataQueue c). txCharacteristic c \<longrightarrow> data (heap c b) = None \<longrightarrow> b = a"
    using Acked_last(2) unfolding invA_def by auto
  with n f(3) have "\<forall>b \<in> set (tl (txDataQueue c)). txCharacteristic c \<longrightarrow> data (heap c b) \<noteq> None"
    by (metis list.set_sel(2))
  moreover from assms f(3) have "\<forall>b \<in> set (tl (txDataQueue c)). b < fresh c"
    unfolding invA_def by (metis list.set_sel(2))
  ultimately show ?thesis
    using assms f Acked_last(5) sorted_wrt_tl [OF s]
    unfolding invA_def by (auto simp: shapes_def)
next
  case (Acked_fault a ps)
  note f = invA_in_flight [OF assms Acked_fault(2)]
  from assms have s: "sorted_wrt (<) (txDataQueue c)" by (simp add: invA_def)
  from sorted_wrt_hd_notin_tl [OF s f(3)] f(4) have n: "a \<notin> set (tl (txDataQueue c))" by simp
  from assms have "\<forall>b \<in> set (txDataQueue c). txCharacteristic c \<longrightarrow> data (heap c b) = None \<longrightarrow> b = a"
    using Acked_fault(2) unfolding invA_def by auto
  with n f(3) have "\<forall>b \<in> set (tl (txDataQueue c)). txCharacteristic c \<longrightarrow> data (heap c b) \<noteq> None"
    by (metis list.set_sel(2))
  moreover from assms f(3) have "\<forall>b \<in> set (tl (txDataQueue c)). b < fresh c"
    unfolding invA_def by (metis list.set_sel(2))
  ultimately show ?thesis
    using assms f Acked_fault(5) sorted_wrt_tl [OF s]
    unfolding invA_def by (auto simp: shapes_def)
next
  case (Nacked a ps)
  note f = invA_in_flight [OF assms Nacked(2)]
  from assms have "\<forall>b \<in> set (txDataQueue c). txCharacteristic c \<longrightarrow> data (heap c b) = None \<longrightarrow> b = a"
    using Nacked(2) unfolding invA_def by auto
  with assms f Nacked(3) show ?thesis
    unfolding invA_def by (auto simp: shapes_def)
next
  case (User a)
  with assms show ?thesis by (auto simp: invA_def)
qed

lemma connect_invA: "invA [] (connect cb)"
  by (simp add: invA_def connect_def shapes_def)

lemma run_invA: "invA [] (run (connect cb) ins)"
  by (rule run_invariant [where I = invA]) (simp_all add: connect_invA exec_invA start_invA)

subsection \<open>The write queue: what is written, acknowledged and completed\<close>

lemma proj_append [simp]:
  "written a (t @ u) = written a t @ written a u"
  "enq a (t @ u) = enq a t @ enq a u"
  "acks a (t @ u) = acks a t + acks a u"
  "dones a (t @ u) = dones a t + dones a u"
  by (simp_all add: written_def enq_def acks_def dones_def)

lemma proj_Cons [simp]:
  "written a (e # t) = chunk_of a e @ written a t"
  "enq a (e # t) = payload_of a e @ enq a t"
  "acks a (e # t) = (if e = Acked a then 1 else 0) + acks a t"
  "dones a (e # t) = (if e = Completed a then 1 else 0) + dones a t"
  by (simp_all add: written_def enq_def acks_def dones_def)

lemma proj_Nil [simp]:
  "written a [] = []" "enq a [] = []" "acks a [] = 0" "dones a [] = 0" "after_all a d []"
  by (simp_all add: written_def enq_def acks_def dones_def after_all_def)

lemma after_all_snoc:
  "after_all a d (t @ [e]) \<longleftrightarrow>
     after_all a d t \<and>
     (e = Completed a \<longrightarrow> written a t = chunks d \<and> acks a t = length (chunks d))"
proof -
  have split: "\<And>t1 t2. t @ [e] = t1 @ Completed a # t2 \<longleftrightarrow>
      (t2 = [] \<and> t1 = t \<and> e = Completed a) \<or> (\<exists>t2'. t2 = t2' @ [e] \<and> t = t1 @ Completed a # t2')"
  proof -
    fix t1 t2
    show "t @ [e] = t1 @ Completed a # t2 \<longleftrightarrow>
      (t2 = [] \<and> t1 = t \<and> e = Completed a) \<or> (\<exists>t2'. t2 = t2' @ [e] \<and> t = t1 @ Completed a # t2')"
      by (cases t2 rule: rev_cases) auto
  qed
  show ?thesis unfolding after_all_def split by blast
qed

lemma after_all_snoc2:
  "after_all a d (t @ [x, y]) \<longleftrightarrow>
     after_all a d (t @ [x]) \<and>
     (y = Completed a \<longrightarrow>
        written a (t @ [x]) = chunks d \<and> acks a (t @ [x]) = length (chunks d))"
  using after_all_snoc [of a d "t @ [x]" y] by simp

lemma chunks_rest: "chunks r = fst (takeChunk r) # rest (snd (takeChunk r))"
  by (cases "length r \<le> CHUNKSIZE") (simp_all add: chunks_short chunks_long takeChunk_def)

lemma invB_frame:
  assumes "invB ag c"
    and "\<And>a. written a (trace c') = written a (trace c)"
    and "\<And>a. enq a (trace c') = enq a (trace c)"
    and "\<And>a. acks a (trace c') = acks a (trace c)"
    and "\<And>a. dones a (trace c') = dones a (trace c)"
    and "\<And>a d. after_all a d (trace c) \<Longrightarrow> after_all a d (trace c')"
    and "fresh c' = fresh c" "txDataQueue c' = txDataQueue c" "pending c' = pending c"
    and "\<And>a. callback (heap c' a) = callback (heap c a)"
    and "\<And>a. txCharacteristic c' \<or> a \<in> set (pending c) \<Longrightarrow> data (heap c' a) = data (heap c a)"
    and "txCharacteristic c' \<longrightarrow> txCharacteristic c"
    and "txCharacteristic c' \<or> pending c \<noteq> [] \<Longrightarrow> phase ag' \<noteq> [SendError] \<Longrightarrow>
         phase ag \<noteq> [SendError]"
  shows "invB ag' c'"
  unfolding invB_def
proof (intro allI)
  fix a
  show "if a < fresh c'
        then \<exists>d. enq a (trace c') = [d] \<and> item_ok ag' c' a d
        else enq a (trace c') = [] \<and> written a (trace c') = []
             \<and> acks a (trace c') = 0 \<and> dones a (trace c') = 0"
  proof (cases "a < fresh c")
    case False
    with assms(1) have "enq a (trace c) = [] \<and> written a (trace c) = []
               \<and> acks a (trace c) = 0 \<and> dones a (trace c) = 0"
      unfolding invB_def by (metis (full_types))
    with False assms(2-5,7) show ?thesis by simp
  next
    case True
    with assms(1) obtain d where d: "enq a (trace c) = [d]" and ok: "item_ok ag c a d"
      unfolding invB_def by (metis (full_types))
    have "item_ok ag' c' a d"
      using ok assms(6) [of a d] assms(11) [of a] assms(12) assms(13)
      unfolding item_ok_def assms(2-5,7-10)
      by (elim conjE) (intro conjI; (blast | force))
    with True d assms(3,7) show ?thesis by auto
  qed
qed

lemma plain_proj:
  assumes "plain e"
  shows "chunk_of a e = []" "payload_of a e = []" "e \<noteq> Acked a" "e \<noteq> Completed a"
  using assms by (cases e; simp)+

lemma after_all_plain: "plain e \<Longrightarrow> after_all a d t \<Longrightarrow> after_all a d (t @ [e])"
  by (simp add: after_all_snoc plain_proj)

lemma invB_observe:
  assumes "invB ag c" "plain e"
  shows "invB ag (observe e c)"
  using assms(1)
  by (rule invB_frame) (simp_all add: plain_proj [OF assms(2)] after_all_plain [OF assms(2)])

lemma item_ok_phase: "phase ag' = phase ag \<Longrightarrow> item_ok ag' c a d = item_ok ag c a d"
  by (simp add: item_ok_def)

lemma invB_phase: "phase ag' = phase ag \<Longrightarrow> invB ag' c = invB ag c"
  by (simp add: invB_def item_ok_phase [of ag' ag])

lemma invB_Do: "invB (Do a # ag) c \<Longrightarrow> invB ag c"
  by (simp add: invB_phase [of "Do a # ag" ag])

lemma dones_zero: "dones a t = 0 \<longleftrightarrow> Completed a \<notin> set t"
  by (simp add: dones_def count_list_0_iff)

lemma chunks_pos: "0 < length (chunks d)"
  using chunks_not_Nil [of d] by simp

lemma invB_enqueue:
  assumes "invA ag c" "invB ag c"
  shows "invB ag (enqueue d cb c)"
  unfolding invB_def
proof (intro allI)
  fix a
  let ?c' = "enqueue d cb c"
  from assms(1) have lt: "\<forall>b \<in> set (txDataQueue c). b < fresh c" by (simp add: invA_def)
  from assms(1) have pq: "set (pending c) \<subseteq> set (txDataQueue c)"
    unfolding invA_def by (cases "txDataQueue c") auto
  have hd: "txDataQueue c \<noteq> [] \<Longrightarrow> hd (txDataQueue c @ [fresh c]) = hd (txDataQueue c)"
    by simp
  consider "a < fresh c" | "a = fresh c" | "fresh c < a" by linarith
  then show "if a < fresh ?c'
        then \<exists>d'. enq a (trace ?c') = [d'] \<and> item_ok ag ?c' a d'
        else enq a (trace ?c') = [] \<and> written a (trace ?c') = []
             \<and> acks a (trace ?c') = 0 \<and> dones a (trace ?c') = 0"
  proof cases
    case 1
    with assms(2) obtain d' where d: "enq a (trace c) = [d']" and ok: "item_ok ag c a d'"
      unfolding invB_def by (metis (full_types))
    from 1 lt have nq: "a \<noteq> fresh c" by simp
    have "after_all a d' (trace c @ [Enqueued (fresh c) d])"
      using ok by (simp add: item_ok_def after_all_snoc)
    with ok nq have "item_ok ag ?c' a d'"
      unfolding item_ok_def by (cases "txDataQueue c = []") (auto simp: hd)
    with 1 d nq show ?thesis by simp
  next
    case 2
    with assms(2) have z: "enq a (trace c) = []" "written a (trace c) = []"
      "acks a (trace c) = 0" "dones a (trace c) = 0"
      unfolding invB_def by (metis (full_types) less_irrefl)+
    from 2 lt have nq: "a \<notin> set (txDataQueue c)" by auto
    with pq have np: "a \<notin> set (pending c)" by auto
    have "after_all a d (trace c @ [Enqueued (fresh c) d])"
      unfolding after_all_def
    proof (intro allI impI)
      fix t1 t2
      assume "trace c @ [Enqueued (fresh c) d] = t1 @ Completed a # t2"
      then have "Completed a \<in> set (trace c)"
        by (cases t2 rule: rev_cases) auto
      then have "0 < dones a (trace c)" using dones_zero [of a "trace c"] by simp
      with z show "written a t1 = chunks d \<and> acks a t1 = length (chunks d)" by simp
    qed
    with 2 z nq np have "item_ok ag ?c' a d"
      unfolding item_ok_def by (auto simp: chunks_pos chunks_not_Nil)
    with 2 z show ?thesis by simp
  next
    case 3
    with assms(2) have z: "enq a (trace c) = []" "written a (trace c) = []"
      "acks a (trace c) = 0" "dones a (trace c) = 0"
      unfolding invB_def by (metis (full_types) less_asym)+
    with 3 show ?thesis by simp
  qed
qed

lemma invB_at:
  assumes "invB ag c" "a < fresh c"
  obtains d where "enq a (trace c) = [d]" "item_ok ag c a d"
  using assms unfolding invB_def by (metis (full_types))

lemma invB_beyond:
  assumes "invB ag c" "\<not> a < fresh c"
  shows "enq a (trace c) = []" "written a (trace c) = []" "acks a (trace c) = 0"
    "dones a (trace c) = 0"
  using assms unfolding invB_def by (metis (full_types))+

lemma invA_live:
  assumes "invA ag c" "txCharacteristic c" "\<not> txInProgress c"
  shows "phase ag \<noteq> [SendError]" "pending c = []"
  using assms unfolding invA_def by auto

lemma item_ok_frame:
  assumes "item_ok ag c a d"
    and "written a (trace c') = written a (trace c)"
    and "acks a (trace c') = acks a (trace c)"
    and "dones a (trace c') = dones a (trace c)"
    and "txDataQueue c' = txDataQueue c"
    and "callback (heap c' a) = callback (heap c a)"
    and "after_all a d (trace c')"
    and "a \<in> set (pending c') \<longleftrightarrow> a \<in> set (pending c)"
    and "data (heap c' a) = data (heap c a)"
    and "txCharacteristic c' \<longrightarrow> txCharacteristic c"
    and "phase ag' \<noteq> [SendError] \<longrightarrow> phase ag \<noteq> [SendError]"
  shows "item_ok ag' c' a d"
  using assms(1,7-11) unfolding item_ok_def assms(2-6)
  by (elim conjE) (intro conjI; (blast | force))

lemma item_ok_live:
  assumes "item_ok ag c a d" "a \<in> set (txDataQueue c)" "phase ag \<noteq> [SendError]"
    "txCharacteristic c \<or> a \<in> set (pending c)"
  shows "written a (trace c) @ rest (data (heap c a)) = chunks d"
    "a \<noteq> hd (txDataQueue c) \<Longrightarrow> written a (trace c) = []"
    "a \<notin> set (pending c) \<Longrightarrow> acks a (trace c) = length (written a (trace c))"
  using assms unfolding item_ok_def by blast+

lemma item_ok_queued:
  assumes "item_ok ag c a d" "a \<in> set (txDataQueue c)"
  shows "dones a (trace c) = 0" "acks a (trace c) < length (chunks d)"
  using assms unfolding item_ok_def by blast+

lemma item_ok_basic:
  assumes "item_ok ag c a d"
  shows "prefix (written a (trace c)) (chunks d)"
    "acks a (trace c) \<le> length (written a (trace c))"
    "a \<in> set (pending c) \<Longrightarrow> length (written a (trace c)) = Suc (acks a (trace c))"
    "dones a (trace c) \<le> 1"
    "dones a (trace c) = 1 \<Longrightarrow> acks a (trace c) = length (chunks d)"
    "after_all a d (trace c)"
    "a \<notin> set (txDataQueue c) \<Longrightarrow>
       dones a (trace c) = 1 \<or> acks a (trace c) < length (chunks d)
       \<or> callback (heap c a) = None"
  using assms unfolding item_ok_def by (elim conjE; (assumption | blast | simp))+

lemma invB_sent:
  assumes "invA ag c" "invB ag c" "\<not> txInProgress c" "writeChunk c = Inr c'"
  shows "invB ag c'"
  using assms(4)
proof (cases rule: writeChunk_Inr)
  case (1 a0 q r)
  note live = invA_live [OF assms(1) 1(3) assms(3)]
  from assms(1) 1(1) have a0: "a0 < fresh c" by (simp add: invA_def)
  let ?e = "WriteValue a0 (fst (takeChunk r))"
  show ?thesis
    unfolding invB_def
  proof (intro allI)
    fix a
    show "if a < fresh c'
        then \<exists>d. enq a (trace c') = [d] \<and> item_ok ag c' a d
        else enq a (trace c') = [] \<and> written a (trace c') = []
             \<and> acks a (trace c') = 0 \<and> dones a (trace c') = 0"
    proof (cases "a < fresh c")
      case False
      with a0 have "a \<noteq> a0" by auto
      with False invB_beyond [OF assms(2) False] 1(4) show ?thesis by simp
    next
      case True
      from invB_at [OF assms(2) True] obtain d where
        d: "enq a (trace c) = [d]" and ok: "item_ok ag c a d" by blast
      have aa: "after_all a d (trace c @ [?e])"
        using ok by (simp add: item_ok_def after_all_snoc)
      have "item_ok ag c' a d"
      proof (cases "a = a0")
        case False
        have f: "trace c' = trace c @ [?e]" "pending c' = [a0]"
          "txDataQueue c' = txDataQueue c" "heap c' a = heap c a"
          "txCharacteristic c' = txCharacteristic c"
          using False live(2) by (simp_all add: 1(4))
        from False live(2) have np: "a \<in> set (pending c') \<longleftrightarrow> a \<in> set (pending c)"
          by (simp add: f)
        show ?thesis
          by (rule item_ok_frame [OF ok _ _ _ f(3) _ _ np])
             (use False aa in \<open>simp_all add: f\<close>)
      next
        case eq: True
        from 1(1) have inq: "a0 \<in> set (txDataQueue c)" and hd: "hd (txDataQueue c) = a0"
          by simp_all
        from item_ok_live [OF ok [unfolded eq] inq live(1)] 1(2,3) live(2)
        have w: "written a0 (trace c) @ chunks r = chunks d"
          and k: "acks a0 (trace c) = length (written a0 (trace c))"
          by simp_all
        from item_ok_queued [OF ok [unfolded eq] inq] have m: "dones a0 (trace c) = 0" by simp
        from w have w': "(written a0 (trace c) @ [fst (takeChunk r)]) @ rest (snd (takeChunk r))
            = chunks d"
          by (simp add: chunks_rest [of r])
        then have p: "prefix (written a0 (trace c) @ [fst (takeChunk r)]) (chunks d)"
          by (metis prefixI)
        from prefix_length_le [OF p] have l: "length (written a0 (trace c)) < length (chunks d)"
          by simp
        have t: "trace c' = trace c @ [?e]" "pending c' = [a0]" "txDataQueue c' = a0 # q"
          "data (heap c' a0) = snd (takeChunk r)"
          using live(2) by (simp_all add: 1(1,4))
        show ?thesis
          unfolding item_ok_def eq t
          using aa [unfolded eq] w' p l k m by simp
      qed
      with True d 1(4) show ?thesis by simp
    qed
  qed
qed

lemma invB_fault:
  assumes "invB ag c" "pending c = []" "\<not> txCharacteristic c" "writeChunk c = Inl c1"
  shows "invB ag' (observe TypeError c1)"
  using assms(4)
proof (cases rule: writeChunk_Inl)
  case 1
  with assms show ?thesis
    by (intro invB_frame [OF assms(1)]) (simp_all add: after_all_plain)
next
  case (2 a q)
  with assms show ?thesis
    by (intro invB_frame [OF assms(1)]) (simp_all add: after_all_plain)
next
  case (3 a q d)
  with assms show ?thesis
    by (intro invB_frame [OF assms(1)]) (simp_all add: after_all_plain)
qed

lemma invB_intro:
  assumes "\<And>a. a < fresh c' \<Longrightarrow> \<exists>d. enq a (trace c') = [d] \<and> item_ok ag' c' a d"
    and "\<And>a. \<not> a < fresh c' \<Longrightarrow> enq a (trace c') = [] \<and> written a (trace c') = []
               \<and> acks a (trace c') = 0 \<and> dones a (trace c') = 0"
  shows "invB ag' c'"
  unfolding invB_def using assms by simp

lemma falsy_None: "falsy d \<Longrightarrow> d \<noteq> Some [] \<Longrightarrow> d = None"
  by (cases d) (simp_all add: falsy_def)

lemma not_falsy: "\<not> falsy d \<Longrightarrow> \<exists>r. d = Some r"
  by (cases d) (simp_all add: falsy_def)

lemma in_tl: "a \<in> set q \<Longrightarrow> a \<noteq> hd q \<Longrightarrow> a \<in> set (tl q)"
  by (cases q) auto

lemma invB_acked_more:
  assumes A: "invA [] c" and B: "invB [] c" and p: "pending c = a0 # ps"
    and nf: "\<not> falsy (data (heap c a0))"
  shows "invB [AfterCallback, CatchWrite] (acked a0 ps c)"
proof (rule invB_intro)
  fix a
  assume "\<not> a < fresh (acked a0 ps c)"
  then have n: "\<not> a < fresh c" by simp
  note f = invA_in_flight [OF A p]
  from A f(3,4) have "a0 < fresh c" unfolding invA_def by (metis hd_in_set)
  with n have "a \<noteq> a0" by auto
  with invB_beyond [OF B n]
  show "enq a (trace (acked a0 ps c)) = [] \<and> written a (trace (acked a0 ps c)) = []
               \<and> acks a (trace (acked a0 ps c)) = 0 \<and> dones a (trace (acked a0 ps c)) = 0"
    by simp
next
  fix a
  assume "a < fresh (acked a0 ps c)"
  then have lt: "a < fresh c" by simp
  note f = invA_in_flight [OF A p]
  from invB_at [OF B lt] obtain d where d: "enq a (trace c) = [d]" and ok: "item_ok [] c a d"
    by blast
  have aa: "after_all a d (trace c @ [Acked a0])"
    using item_ok_basic(6) [OF ok] by (simp add: after_all_snoc)
  have "item_ok [AfterCallback, CatchWrite] (acked a0 ps c) a d"
  proof (cases "a = a0")
    case False
    with p f(1) have np: "a \<in> set (pending (acked a0 ps c)) \<longleftrightarrow> a \<in> set (pending c)"
      by simp
    show ?thesis
      by (rule item_ok_frame [OF ok _ _ _ _ _ _ np]) (use False aa in simp_all)
  next
    case True
    from f(3,4) have inq: "a0 \<in> set (txDataQueue c)" by (metis hd_in_set)
    from p have inp: "a0 \<in> set (pending c)" by simp
    from not_falsy [OF nf] obtain r where r: "data (heap c a0) = Some r" by blast
    from item_ok_live(1) [OF ok [unfolded True] inq] inp r
    have w: "written a0 (trace c) @ chunks r = chunks d" by simp
    then have l: "length (written a0 (trace c)) < length (chunks d)"
      using chunks_pos [of r] by (metis length_append less_add_same_cancel1)
    from item_ok_basic(3) [OF ok [unfolded True] inp]
    have k: "length (written a0 (trace c)) = Suc (acks a0 (trace c))" .
    from item_ok_queued(1) [OF ok [unfolded True] inq] have m: "dones a0 (trace c) = 0" .
    from item_ok_basic(1) [OF ok [unfolded True]]
    have pre: "prefix (written a0 (trace c)) (chunks d)" .
    show ?thesis
      unfolding item_ok_def True
      using aa [unfolded True] w l k m pre inq f(1,4) r by simp
  qed
  with d show "\<exists>d. enq a (trace (acked a0 ps c)) = [d]
      \<and> item_ok [AfterCallback, CatchWrite] (acked a0 ps c) a d"
    by simp
qed

lemma invA_head:
  assumes "invA ag c" "pending c = a0 # ps"
  shows "a0 \<in> set (txDataQueue c)" "a0 < fresh c" "a0 \<notin> set (tl (txDataQueue c))"
proof -
  note f = invA_in_flight [OF assms]
  from f(3,4) show q: "a0 \<in> set (txDataQueue c)" by (metis hd_in_set)
  with assms(1) show "a0 < fresh c" unfolding invA_def by blast
  from assms(1) have "sorted_wrt (<) (txDataQueue c)" by (simp add: invA_def)
  from sorted_wrt_hd_notin_tl [OF this f(3)] f(4) show "a0 \<notin> set (tl (txDataQueue c))"
    by simp
qed

lemma item_ok_shift_other:
  assumes ok: "item_ok [] c a d" and ne: "a \<noteq> a0" and hd: "hd (txDataQueue c) = a0"
    and p: "pending c = [a0]"
    and c': "txDataQueue c' = tl (txDataQueue c)" "pending c' = []" "heap c' = heap c"
      "txCharacteristic c' = txCharacteristic c"
      "written a (trace c') = written a (trace c)" "acks a (trace c') = acks a (trace c)"
      "dones a (trace c') = dones a (trace c)" "after_all a d (trace c')"
  shows "item_ok ag' c' a d"
proof -
  have q: "a \<in> set (tl (txDataQueue c)) \<longleftrightarrow> a \<in> set (txDataQueue c)"
    using ne hd by (cases "txDataQueue c") auto
  from ne p have np: "a \<notin> set (pending c)" by simp
  have live: "a \<in> set (txDataQueue c) \<Longrightarrow> txCharacteristic c \<Longrightarrow>
      written a (trace c) @ rest (data (heap c a)) = chunks d \<and> written a (trace c) = []
      \<and> acks a (trace c) = length (written a (trace c))"
    using item_ok_live [OF ok, of] ne hd np by simp
  show ?thesis
    unfolding item_ok_def c'(1-7) q
    using item_ok_basic [OF ok] item_ok_queued [OF ok] live np c'(8)
    by (intro conjI impI; (elim conjE)?; (simp; fail)?)
qed

lemma invB_acked_last:
  assumes A: "invA [] c" and B: "invB [] c" and p: "pending c = a0 # ps"
    and fl: "falsy (data (heap c a0))"
  shows "invB ag' (observe (Completed a0) (shifted a0 ps c))"
proof (rule invB_intro)
  let ?c' = "observe (Completed a0) (shifted a0 ps c)"
  fix a
  assume "\<not> a < fresh ?c'"
  then have n: "\<not> a < fresh c" by simp
  with invA_head(2) [OF A p] have "a \<noteq> a0" by auto
  with invB_beyond [OF B n]
  show "enq a (trace ?c') = [] \<and> written a (trace ?c') = []
               \<and> acks a (trace ?c') = 0 \<and> dones a (trace ?c') = 0"
    by simp
next
  let ?c' = "observe (Completed a0) (shifted a0 ps c)"
  fix a
  assume "a < fresh ?c'"
  then have lt: "a < fresh c" by simp
  note f = invA_in_flight [OF A p]
  note h = invA_head [OF A p]
  from invB_at [OF B lt] obtain d where d: "enq a (trace c) = [d]" and ok: "item_ok [] c a d"
    by blast
  have "item_ok ag' ?c' a d"
  proof (cases "a = a0")
    case False
    have aa: "after_all a d (trace ?c')"
      using item_ok_basic(6) [OF ok] False by (simp add: after_all_snoc after_all_snoc2)
    show ?thesis
      by (rule item_ok_shift_other [OF ok False f(4)])
         (use False p f(1) aa in simp_all)
  next
    case True
    from p have inp: "a0 \<in> set (pending c)" by simp
    from falsy_None [OF fl f(5)] have dn: "data (heap c a0) = None" .
    from item_ok_live(1) [OF ok [unfolded True] h(1)] inp dn
    have w: "written a0 (trace c) = chunks d" by simp
    from item_ok_basic(3) [OF ok [unfolded True] inp]
    have k: "length (written a0 (trace c)) = Suc (acks a0 (trace c))" .
    from item_ok_queued(1) [OF ok [unfolded True] h(1)] have m: "dones a0 (trace c) = 0" .
    have aa: "after_all a0 d (trace ?c')"
      using item_ok_basic(6) [OF ok [unfolded True]] w k by (simp add: after_all_snoc after_all_snoc2)
    show ?thesis
      unfolding item_ok_def True
      using aa w k m h(3) f(1) by simp
  qed
  with d show "\<exists>d. enq a (trace ?c') = [d] \<and> item_ok ag' ?c' a d" by simp
qed

lemma invB_acked_fault:
  assumes A: "invA [] c" and B: "invB [] c" and p: "pending c = a0 # ps"
    and cb: "callback (heap c a0) = None"
  shows "invB ag' (observe TypeError (shifted a0 ps c))"
proof (rule invB_intro)
  let ?c' = "observe TypeError (shifted a0 ps c)"
  fix a
  assume "\<not> a < fresh ?c'"
  then have n: "\<not> a < fresh c" by simp
  with invA_head(2) [OF A p] have "a \<noteq> a0" by auto
  with invB_beyond [OF B n]
  show "enq a (trace ?c') = [] \<and> written a (trace ?c') = []
               \<and> acks a (trace ?c') = 0 \<and> dones a (trace ?c') = 0"
    by simp
next
  let ?c' = "observe TypeError (shifted a0 ps c)"
  fix a
  assume "a < fresh ?c'"
  then have lt: "a < fresh c" by simp
  note f = invA_in_flight [OF A p]
  note h = invA_head [OF A p]
  from invB_at [OF B lt] obtain d where d: "enq a (trace c) = [d]" and ok: "item_ok [] c a d"
    by blast
  have "item_ok ag' ?c' a d"
  proof (cases "a = a0")
    case False
    have aa: "after_all a d (trace ?c')"
      using item_ok_basic(6) [OF ok] False by (simp add: after_all_snoc after_all_snoc2)
    show ?thesis
      by (rule item_ok_shift_other [OF ok False f(4)])
         (use False p f(1) aa in simp_all)
  next
    case True
    from p have inp: "a0 \<in> set (pending c)" by simp
    from item_ok_basic(3) [OF ok [unfolded True] inp]
    have k: "length (written a0 (trace c)) = Suc (acks a0 (trace c))" .
    from item_ok_queued(1) [OF ok [unfolded True] h(1)] have m: "dones a0 (trace c) = 0" .
    have aa: "after_all a0 d (trace ?c')"
      using item_ok_basic(6) [OF ok [unfolded True]] by (simp add: after_all_snoc after_all_snoc2)
    show ?thesis
      unfolding item_ok_def True
      using aa k m h(3) f(1) cb item_ok_basic(1) [OF ok [unfolded True]] by simp
  qed
  with d show "\<exists>d. enq a (trace ?c') = [d] \<and> item_ok ag' ?c' a d" by simp
qed

lemma invB_nacked:
  assumes A: "invA [] c" and B: "invB [] c" and p: "pending c = a0 # ps"
  shows "invB [SendError] (observe (Nacked a0) (c\<lparr> pending := ps \<rparr>))"
proof (rule invB_intro)
  let ?c' = "observe (Nacked a0) (c\<lparr> pending := ps \<rparr>)"
  fix a
  assume "\<not> a < fresh ?c'"
  then have n: "\<not> a < fresh c" by simp
  with invB_beyond [OF B n]
  show "enq a (trace ?c') = [] \<and> written a (trace ?c') = []
               \<and> acks a (trace ?c') = 0 \<and> dones a (trace ?c') = 0"
    by simp
next
  let ?c' = "observe (Nacked a0) (c\<lparr> pending := ps \<rparr>)"
  fix a
  assume "a < fresh ?c'"
  then have lt: "a < fresh c" by simp
  note f = invA_in_flight [OF A p]
  from invB_at [OF B lt] obtain d where d: "enq a (trace c) = [d]" and ok: "item_ok [] c a d"
    by blast
  have aa: "after_all a d (trace ?c')"
    using item_ok_basic(6) [OF ok] by (simp add: after_all_snoc)
  have "item_ok [SendError] ?c' a d"
    unfolding item_ok_def
    using item_ok_basic [OF ok] item_ok_queued [OF ok] aa f(1)
    by (intro conjI impI; (elim conjE)?; (simp; fail)?)
  with d show "\<exists>d. enq a (trace ?c') = [d] \<and> item_ok [SendError] ?c' a d" by simp
qed

lemma invB_send_error:
  assumes B: "invB ag c"
  shows "invB ag' (c\<lparr> txDataQueue := [] \<rparr>)"
proof (rule invB_intro)
  let ?c' = "c\<lparr> txDataQueue := [] \<rparr>"
  fix a
  assume "\<not> a < fresh ?c'"
  then have n: "\<not> a < fresh c" by simp
  with invB_beyond [OF B n]
  show "enq a (trace ?c') = [] \<and> written a (trace ?c') = []
               \<and> acks a (trace ?c') = 0 \<and> dones a (trace ?c') = 0"
    by simp
next
  let ?c' = "c\<lparr> txDataQueue := [] \<rparr>"
  fix a
  assume "a < fresh ?c'"
  then have lt: "a < fresh c" by simp
  from invB_at [OF B lt] obtain d where d: "enq a (trace c) = [d]" and ok: "item_ok ag c a d"
    by blast
  have kn: "dones a (trace c) = 1 \<or> acks a (trace c) < length (chunks d)
      \<or> callback (heap c a) = None"
    using item_ok_basic(7) [OF ok] item_ok_queued(2) [OF ok]
    by (cases "a \<in> set (txDataQueue c)") blast+
  have "item_ok ag' ?c' a d"
    unfolding item_ok_def
    using item_ok_basic(1-6) [OF ok] kn
    by (intro conjI impI; (elim conjE)?; (simp; fail)?)
  with d show "\<exists>d. enq a (trace ?c') = [d] \<and> item_ok ag' ?c' a d" by simp
qed

lemma invB_final:
  assumes B: "invB [] c" and z: "fresh c = 0"
  shows "invB ag' (opened c)"
proof (rule invB_intro)
  fix a
  assume "a < fresh (opened c)"
  with z show "\<exists>d. enq a (trace (opened c)) = [d] \<and> item_ok ag' (opened c) a d" by simp
next
  fix a
  assume "\<not> a < fresh (opened c)"
  then have n: "\<not> a < fresh c" by simp
  with invB_beyond [OF B n]
  show "enq a (trace (opened c)) = [] \<and> written a (trace (opened c)) = []
               \<and> acks a (trace (opened c)) = 0 \<and> dones a (trace (opened c)) = 0"
    by simp
qed

lemma connect_invB: "invB [] (connect cb)"
  by (simp add: invB_def connect_def)

lemma invB_same:
  assumes "invB ag c" "phase ag' \<noteq> [SendError] \<Longrightarrow> phase ag \<noteq> [SendError]"
  shows "invB ag' c"
  using assms(1) by (rule invB_frame) (use assms(2) in simp_all)

lemma exec_invB:
  assumes A: "invA (it # ag) c" and B: "invB (it # ag) c" and e: "exec it ag c = (ag', c')"
  shows "invB ag' c'"
  using e
proof (cases rule: exec_cases)
  case (Write_noop d cb)
  with B show ?thesis by (simp add: invB_Do)
next
  case (Write_queued d cb)
  with A B have "invA ag c" "invB ag c" by (simp_all add: invA_Do invB_Do)
  with Write_queued show ?thesis by (simp add: invB_enqueue)
next
  case (Write_sent d cb)
  with A B have i: "invA ag c" "invB ag c" by (simp_all add: invA_Do invB_Do)
  with Write_sent have "invA ag (enqueue d cb c)" "invB ag (enqueue d cb c)"
    by (simp_all add: invA_enqueue invB_enqueue)
  from invB_sent [OF this _ Write_sent(5)] Write_sent show ?thesis by simp
next
  case (Write_fault d cb c1)
  with A have "invA ag c" by (simp add: invA_Do)
  with Write_fault have i: "invA ag (enqueue d cb c)" by (simp add: invA_enqueue)
  from invA_pending [OF i] Write_fault have "pending (enqueue d cb c) = []" by simp
  from invA_no_fault [OF i this, of c1] Write_fault show ?thesis by simp
next
  case Close_noop
  with B show ?thesis by (simp add: invB_Do)
next
  case Close_open
  with B have "invB ag c" by (simp add: invB_Do)
  then show ?thesis
    unfolding Close_open
    by (rule invB_frame) (simp_all add: after_all_snoc after_all_snoc2)
next
  case Close_neg
  with B have "invB ag c" by (simp add: invB_Do)
  then show ?thesis
    unfolding Close_neg
    by (rule invB_frame) (simp_all add: after_all_snoc after_all_snoc2)
next
  case (On evt cb)
  with B have "invB ag c" by (simp add: invB_Do)
  then show ?thesis
    unfolding On
    by (rule invB_frame) simp_all
next
  case After_idle
  from B show ?thesis
    unfolding After_idle
    by (rule invB_frame) simp_all
next
  case After_sent
  from A After_sent(1) have ag: "ag = [CatchWrite]"
    by (auto simp: invA_def shape_elims)
  from A After_sent(1) have i: "invA ag (c\<lparr> txInProgress := False \<rparr>)"
    unfolding invA_def by (auto simp: shape_elims shapes_def)
  from B have "invB ag (c\<lparr> txInProgress := False \<rparr>)"
    by (rule invB_frame) (simp_all add: ag After_sent(1))
  from invB_sent [OF i this _ After_sent(4)] After_sent(3) show ?thesis by simp
next
  case (After_fault c1)
  from A After_fault(1) have i: "invA ag (c\<lparr> txInProgress := False \<rparr>)"
    unfolding invA_def by (auto simp: shape_elims shapes_def)
  from invA_pending [OF i] have p: "pending (c\<lparr> txInProgress := False \<rparr>) = []" by simp
  from invA_no_fault [OF i p _ _ _, of c1] After_fault(2,4)
  have ntx: "\<not> txCharacteristic (c\<lparr> txInProgress := False \<rparr>)" by auto
  from B have "invB (it # ag) (c\<lparr> txInProgress := False \<rparr>)"
    by (rule invB_frame) simp_all
  from invB_fault [OF this p ntx After_fault(4)] After_fault(5) show ?thesis by simp
next
  case Emit
  from A Emit(1) have ag: "ag = [CatchNeg]" by (auto simp: invA_def shape_elims)
  from B show ?thesis
    unfolding Emit
    by (rule invB_frame) (simp_all add: after_all_snoc ag)
next
  case Marker
  from B show ?thesis
    unfolding Marker
    by (rule invB_frame) (use Marker(1) in auto)
next
  case Send_error
  from B show ?thesis unfolding Send_error by (rule invB_send_error)
next
  case Neg_error
  from B show ?thesis
    unfolding Neg_error
    by (rule invB_frame) simp_all
qed

lemma start_invB:
  assumes A: "invA [] c" and B: "invB [] c"
  shows "invB (fst (start c i)) (snd (start c i))"
proof (cases rule: start_cases [of c i])
  case Idle
  with B show ?thesis by simp
next
  case Advance
  from B resolve_fields [OF Advance(2)] have "invB [] (resolve c)"
    by (intro invB_frame [OF B]) simp_all
  with Advance show ?thesis by simp
next
  case Final
  with A have "fresh c = 0" by (simp add: invA_def)
  from invB_final [OF B this] Final show ?thesis by simp
next
  case Rejected
  from B have "invB [NegError] (c\<lparr> stage := Settled \<rparr>)"
    by (rule invB_frame) simp_all
  with Rejected show ?thesis by simp
next
  case Gatt
  with B show ?thesis by (simp add: invB_phase [of "[Do ActClose]" "[]"])
next
  case (Notif d)
  from B have "invB (calls (ondata c)) (observe (Emitted EvData d) c)"
    by (rule invB_frame) (simp_all add: after_all_snoc)
  with Notif show ?thesis by simp
next
  case (Acked_more a ps)
  from invB_acked_more [OF A B Acked_more(2,3)] Acked_more(4) show ?thesis by simp
next
  case (Acked_last a ps prog)
  from invB_acked_last [OF A B Acked_last(2,3)] Acked_last(5) show ?thesis by simp
next
  case (Acked_fault a ps)
  from invB_acked_fault [OF A B Acked_fault(2,4)] Acked_fault(5) show ?thesis by simp
next
  case (Nacked a ps)
  from invB_nacked [OF A B Nacked(2)] Nacked(3) show ?thesis by simp
next
  case (User a)
  with B show ?thesis by (simp add: invB_phase [of "[Do a]" "[]"])
qed

lemma run_invAB: "invA [] (run (connect cb) ins) \<and> invB [] (run (connect cb) ins)"
proof -
  have "(\<lambda>ag c. invA ag c \<and> invB ag c) [] (run (connect cb) ins)"
  proof (rule run_invariant)
    show "invA [] (connect cb) \<and> invB [] (connect cb)"
      by (simp add: connect_invA connect_invB)
  next
    fix it ag c ag' c'
    assume "invA (it # ag) c \<and> invB (it # ag) c" "exec it ag c = (ag', c')"
    then show "invA ag' c' \<and> invB ag' c'" using exec_invA exec_invB by blast
  next
    fix c i
    assume "invA [] c \<and> invB [] c"
    then show "invA (fst (start c i)) (snd (start c i)) \<and> invB (fst (start c i)) (snd (start c i))"
      using start_invA start_invB by blast
  qed
  then show ?thesis .
qed

lemma enq_mem: "Enqueued a p \<in> set t \<longleftrightarrow> p \<in> set (enq a t)"
proof (induction t)
  case Nil
  then show ?case by simp
next
  case (Cons e t)
  then show ?case by (cases e) auto
qed

lemma run_item_ok:
  assumes "Enqueued a p \<in> set (trace (run (connect cb) ins))"
  shows "a < fresh (run (connect cb) ins) \<and> item_ok [] (run (connect cb) ins) a p"
proof -
  let ?c = "run (connect cb) ins"
  from run_invAB [of cb ins] have B: "invB [] ?c" by simp
  from assms have m: "p \<in> set (enq a (trace ?c))" by (simp add: enq_mem)
  have lt: "a < fresh ?c"
  proof (rule ccontr)
    assume "\<not> a < fresh ?c"
    from invB_beyond(1) [OF B this] m show False by simp
  qed
  from invB_at [OF B lt] obtain d where d: "enq a (trace ?c) = [d]" "item_ok [] ?c a d"
    by blast
  with m have "d = p" by simp
  with d lt show ?thesis by simp
qed

lemma prefix_butlast: "prefix xs ys \<Longrightarrow> set (butlast xs) \<subseteq> set (butlast ys)"
proof -
  assume "prefix xs ys"
  then obtain zs where ys: "ys = xs @ zs" by (auto simp: prefix_def)
  show ?thesis
  proof (cases "zs = []")
    case True
    with ys show ?thesis by simp
  next
    case False
    with ys have "butlast ys = xs @ butlast zs" by (simp add: butlast_append)
    then show ?thesis using in_set_butlastD [of _ xs] by auto
  qed
qed

lemma prefix_same_length: "prefix xs ys \<Longrightarrow> length xs = length ys \<Longrightarrow> xs = ys"
  by (auto simp: prefix_def)

lemma dones_mem: "Completed a \<in> set t \<longleftrightarrow> 0 < dones a t"
  using dones_zero [of a t] by auto

text \<open>
  C5. In every run, the chunks handed to the transport for a request, in the order they
  are handed out, are the first chunks of the splitting \<open>chunks\<close> of its payload, and
  all of them once the request has completed (or as many have been handed out). So their
  concatenation is a prefix of the payload and, once complete, the payload itself; no
  chunk is longer than 16; every chunk but the last has length exactly 16.
\<close>

theorem chunking_lossless_bounded:
  assumes "Enqueued a p \<in> set (trace (run (connect cb) ins))"
  shows "prefix (written a (trace (run (connect cb) ins))) (chunks p)
     \<and> prefix (concat (written a (trace (run (connect cb) ins)))) p
     \<and> (\<forall>ch \<in> set (written a (trace (run (connect cb) ins))). length ch \<le> 16)
     \<and> (\<forall>ch \<in> set (butlast (written a (trace (run (connect cb) ins)))). length ch = 16)
     \<and> (Completed a \<in> set (trace (run (connect cb) ins))
          \<or> length (written a (trace (run (connect cb) ins))) = length (chunks p)
          \<longrightarrow> concat (written a (trace (run (connect cb) ins))) = p)
     \<and> concat (chunks p) = p
     \<and> (\<forall>ch \<in> set (chunks p). length ch \<le> 16)
     \<and> (\<forall>ch \<in> set (butlast (chunks p)). length ch = 16)"
proof -
  let ?t = "trace (run (connect cb) ins)"
  let ?w = "written a ?t"
  from run_item_ok [OF assms] have ok: "item_ok [] (run (connect cb) ins) a p" by simp
  note b = item_ok_basic [OF ok]
  from b(1) obtain zs where zs: "chunks p = ?w @ zs" by (auto simp: prefix_def)
  have c: "concat (chunks p) = p" by (rule concat_chunks)
  have p2: "prefix (concat ?w) p"
  proof -
    from zs have "concat (chunks p) = concat ?w @ concat zs" by simp
    with c show ?thesis by (metis prefixI)
  qed
  have le: "\<forall>ch \<in> set (chunks p). length ch \<le> 16"
    using chunks_bounded [of _ p] by (simp add: CHUNKSIZE_def)
  have eq: "\<forall>ch \<in> set (butlast (chunks p)). length ch = 16"
    using chunks_full [of _ p] by (simp add: CHUNKSIZE_def)
  from zs have sub: "set ?w \<subseteq> set (chunks p)" by auto
  have full: "concat ?w = p"
    if "Completed a \<in> set ?t \<or> length ?w = length (chunks p)"
  proof -
    have "length ?w = length (chunks p)"
    proof (cases "length ?w = length (chunks p)")
      case True
      then show ?thesis .
    next
      case False
      with that have "0 < dones a ?t" by (simp add: dones_mem)
      with b(4) have "dones a ?t = 1" by simp
      from b(5) [OF this] b(2) prefix_length_le [OF b(1)] show ?thesis by simp
    qed
    from prefix_same_length [OF b(1) this] c show ?thesis by simp
  qed
  from b(1) p2 le eq sub prefix_butlast [OF b(1)] full c show ?thesis by blast
qed

theorem chunking_lossless_bounded_witness:
  "Enqueued 0 ''abcdefghijklmnopqrstuvwxyz'' \<in> set (trace (run (connect ([], []))
      [Resolve, Resolve, Resolve, Resolve, Resolve, Resolve,
       User (ActWrite ''abcdefghijklmnopqrstuvwxyz'' (Some [])), WriteDone, WriteDone]))
   \<and> Completed 0 \<in> set (trace (run (connect ([], []))
      [Resolve, Resolve, Resolve, Resolve, Resolve, Resolve,
       User (ActWrite ''abcdefghijklmnopqrstuvwxyz'' (Some [])), WriteDone, WriteDone]))
   \<and> written 0 (trace (run (connect ([], []))
      [Resolve, Resolve, Resolve, Resolve, Resolve, Resolve,
       User (ActWrite ''abcdefghijklmnopqrstuvwxyz'' (Some [])), WriteDone, WriteDone]))
     = [''abcdefghijklmnop'', ''qrstuvwxyz'']
   \<and> concat [''abcdefghijklmnop'', ''qrstuvwxyz''] = ''abcdefghijklmnopqrstuvwxyz''"
  using chunking_lossless_bounded [of 0 "''abcdefghijklmnopqrstuvwxyz''" "([], [])"
      "[Resolve, Resolve, Resolve, Resolve, Resolve, Resolve,
        User (ActWrite ''abcdefghijklmnopqrstuvwxyz'' (Some [])), WriteDone, WriteDone]"]
  by (simp add: ops written_def)

subsection \<open>The write queue: rejected writes\<close>

lemma invN_gen:
  assumes "invN ag c"
    and "\<And>a. Nacked a \<in> set (trace c') \<Longrightarrow> Nacked a \<in> set (trace c) \<or> a \<in> new"
    and "fresh c \<le> fresh c'"
    and "\<And>a. Nacked a \<in> set (trace c) \<Longrightarrow> acks a (trace c') = acks a (trace c)
          \<and> length (written a (trace c)) \<le> length (written a (trace c'))"
    and "\<And>a. Nacked a \<in> set (trace c) \<Longrightarrow> a \<in> set (pending c') \<Longrightarrow> a \<in> set (pending c)"
    and "\<And>a. Nacked a \<in> set (trace c) \<Longrightarrow> a \<in> set (txDataQueue c') \<Longrightarrow>
          a \<in> set (txDataQueue c) \<and> (phase ag = [SendError] \<longrightarrow> phase ag' = [SendError])"
    and "\<And>a. a \<in> new \<Longrightarrow> a < fresh c' \<and> a \<notin> set (pending c')
          \<and> acks a (trace c') < length (written a (trace c'))
          \<and> (a \<in> set (txDataQueue c') \<longrightarrow> phase ag' = [SendError])"
  shows "invN ag' c'"
  unfolding invN_def
proof (intro allI impI)
  fix a
  assume "Nacked a \<in> set (trace c')"
  from assms(2) [OF this] show "a < fresh c' \<and> a \<notin> set (pending c')
        \<and> acks a (trace c') < length (written a (trace c'))
        \<and> (a \<in> set (txDataQueue c') \<longrightarrow> phase ag' = [SendError])"
  proof
    assume n: "Nacked a \<in> set (trace c)"
    with assms(1) have o: "a < fresh c" "a \<notin> set (pending c)"
      "acks a (trace c) < length (written a (trace c))"
      "a \<in> set (txDataQueue c) \<longrightarrow> phase ag = [SendError]"
      unfolding invN_def by blast+
    from o(1) assms(3) have "a < fresh c'" by simp
    moreover from o(2) assms(5) [OF n] have "a \<notin> set (pending c')" by blast
    moreover from o(3) assms(4) [OF n] have "acks a (trace c') < length (written a (trace c'))"
      by simp
    moreover from o(4) assms(6) [OF n] have "a \<in> set (txDataQueue c') \<longrightarrow> phase ag' = [SendError]"
      by blast
    ultimately show ?thesis by blast
  next
    assume "a \<in> new"
    from assms(7) [OF this] show ?thesis .
  qed
qed

lemma invN_sent:
  assumes A: "invA ag c" and N: "invN ag c" and ip: "\<not> txInProgress c"
    and w: "writeChunk c = Inr c'"
  shows "invN ag c'"
  using w
proof (cases rule: writeChunk_Inr)
  case (1 a0 q r)
  note live = invA_live [OF A 1(3) ip]
  from N live(1) 1(1) have nn: "Nacked a0 \<notin> set (trace c)"
    unfolding invN_def by auto
  show ?thesis
    by (rule invN_gen [OF N, where new = "{}"]) (use nn live(2) in \<open>auto simp: 1(4)\<close>)
qed

lemma invN_fault:
  assumes N: "invN ag c" and w: "writeChunk c = Inl c1"
    and ph: "phase ag \<noteq> [SendError]"
  shows "invN ag' (observe TypeError c1)"
  using w
proof (cases rule: writeChunk_Inl)
  case 1
  show ?thesis
    by (rule invN_gen [OF N, where new = "{}"]) (use ph in \<open>auto simp: 1\<close>)
next
  case (2 a q)
  show ?thesis
    by (rule invN_gen [OF N, where new = "{}"]) (use ph in \<open>auto simp: 2\<close>)
next
  case (3 a q d)
  show ?thesis
    by (rule invN_gen [OF N, where new = "{}"]) (use ph in \<open>auto simp: 3\<close>)
qed

lemma invN_enqueue:
  assumes N: "invN ag c"
  shows "invN ag (enqueue d cb c)"
proof (rule invN_gen [OF N, where new = "{}"])
  fix a
  assume n: "Nacked a \<in> set (trace c)" and q: "a \<in> set (txDataQueue (enqueue d cb c))"
  from N n have "a < fresh c" unfolding invN_def by blast
  with q show "a \<in> set (txDataQueue c) \<and> (phase ag = [SendError] \<longrightarrow> phase ag = [SendError])"
    by auto
qed auto

lemma invN_Do: "invN (Do a # ag) c \<Longrightarrow> invN ag c"
  by (simp add: invN_def)

lemma exec_invN:
  assumes A: "invA (it # ag) c" and N: "invN (it # ag) c" and e: "exec it ag c = (ag', c')"
  shows "invN ag' c'"
  using e
proof (cases rule: exec_cases)
  case (Write_noop d cb)
  with N show ?thesis by (simp add: invN_Do)
next
  case (Write_queued d cb)
  with N show ?thesis by (simp add: invN_Do invN_enqueue)
next
  case (Write_sent d cb)
  with A N have i: "invA ag c" "invN ag c" by (simp_all add: invA_Do invN_Do)
  with Write_sent have "invA ag (enqueue d cb c)" "invN ag (enqueue d cb c)"
    by (simp_all add: invA_enqueue invN_enqueue)
  from invN_sent [OF this _ Write_sent(5)] Write_sent show ?thesis by simp
next
  case (Write_fault d cb c1)
  with A have "invA ag c" by (simp add: invA_Do)
  with Write_fault have i: "invA ag (enqueue d cb c)" by (simp add: invA_enqueue)
  from invA_pending [OF i] Write_fault have "pending (enqueue d cb c) = []" by simp
  from invA_no_fault [OF i this, of c1] Write_fault show ?thesis by simp
next
  case Close_noop
  with N show ?thesis by (simp add: invN_Do)
next
  case Close_open
  with N have "invN ag c" by (simp add: invN_Do)
  then show ?thesis
    unfolding Close_open by (rule invN_gen [where new = "{}"]) auto
next
  case Close_neg
  with N have "invN ag c" by (simp add: invN_Do)
  then show ?thesis
    unfolding Close_neg by (rule invN_gen [where new = "{}"]) auto
next
  case (On evt cb)
  with N have "invN ag c" by (simp add: invN_Do)
  then show ?thesis
    unfolding On by (rule invN_gen [where new = "{}"]) auto
next
  case After_idle
  from N show ?thesis
    unfolding After_idle by (rule invN_gen [where new = "{}"]) auto
next
  case After_sent
  from A After_sent(1) have i: "invA ag (c\<lparr> txInProgress := False \<rparr>)"
    unfolding invA_def by (auto simp: shape_elims shapes_def)
  from N have "invN ag (c\<lparr> txInProgress := False \<rparr>)"
    unfolding After_sent(1) by (rule invN_gen [where new = "{}"]) auto
  from invN_sent [OF i this _ After_sent(4)] After_sent(3) show ?thesis by simp
next
  case (After_fault c1)
  from N have "invN (it # ag) (c\<lparr> txInProgress := False \<rparr>)"
    by (rule invN_gen [where new = "{}"]) auto
  from invN_fault [OF this After_fault(4)] After_fault(1,5) show ?thesis by simp
next
  case Emit
  from N show ?thesis
    unfolding Emit by (rule invN_gen [where new = "{}"]) auto
next
  case Marker
  from N show ?thesis
    unfolding Marker(2,3) by (rule invN_gen [where new = "{}"]) (use Marker(1) in auto)
next
  case Send_error
  from N show ?thesis
    unfolding Send_error by (rule invN_gen [where new = "{}"]) auto
next
  case Neg_error
  from N show ?thesis
    unfolding Neg_error by (rule invN_gen [where new = "{}"]) auto
qed

lemma mem_tl: "x \<in> set (tl xs) \<Longrightarrow> x \<in> set xs"
  by (cases xs) auto

lemma invN_not_pending:
  "invN ag c \<Longrightarrow> a \<in> set (pending c) \<Longrightarrow> Nacked a \<notin> set (trace c)"
  unfolding invN_def by blast

lemma start_invN:
  assumes A: "invA [] c" and B: "invB [] c" and N: "invN [] c"
  shows "invN (fst (start c i)) (snd (start c i))"
proof (cases rule: start_cases [of c i])
  case Idle
  with N show ?thesis by simp
next
  case Advance
  have "invN [] (resolve c)"
    by (rule invN_gen [OF N, where new = "{}"]) (auto simp: resolve_fields [OF Advance(2)])
  with Advance show ?thesis by simp
next
  case Final
  have "invN (map Do (fst (onConnected c)) @ [EmitOpen, CatchNeg]) (opened c)"
    by (rule invN_gen [OF N, where new = "{}"]) auto
  with Final show ?thesis by simp
next
  case Rejected
  have "invN [NegError] (c\<lparr> stage := Settled \<rparr>)"
    by (rule invN_gen [OF N, where new = "{}"]) auto
  with Rejected show ?thesis by simp
next
  case Gatt
  have "invN [Do ActClose] c"
    by (rule invN_gen [OF N, where new = "{}"]) auto
  with Gatt show ?thesis by simp
next
  case (Notif d)
  have "invN (calls (ondata c)) (observe (Emitted EvData d) c)"
    by (rule invN_gen [OF N, where new = "{}"]) auto
  with Notif show ?thesis by simp
next
  case (Acked_more a ps)
  from invN_not_pending [OF N, of a] Acked_more(2) have nn: "Nacked a \<notin> set (trace c)" by simp
  have "invN [AfterCallback, CatchWrite] (acked a ps c)"
    by (rule invN_gen [OF N, where new = "{}"]) (use nn Acked_more(2) in auto)
  with Acked_more show ?thesis by simp
next
  case (Acked_last a ps prog)
  from invN_not_pending [OF N, of a] Acked_last(2) have nn: "Nacked a \<notin> set (trace c)" by simp
  have "invN (map Do prog @ [AfterCallback, CatchWrite]) (observe (Completed a) (shifted a ps c))"
    by (rule invN_gen [OF N, where new = "{}"])
       (use nn Acked_last(2) in \<open>auto dest: mem_tl\<close>)
  with Acked_last show ?thesis by simp
next
  case (Acked_fault a ps)
  from invN_not_pending [OF N, of a] Acked_fault(2) have nn: "Nacked a \<notin> set (trace c)" by simp
  have "invN [SendError] (observe TypeError (shifted a ps c))"
    by (rule invN_gen [OF N, where new = "{}"])
       (use nn Acked_fault(2) in \<open>auto dest: mem_tl\<close>)
  with Acked_fault show ?thesis by simp
next
  case (Nacked a ps)
  note f = invA_in_flight [OF A Nacked(2)]
  note h = invA_head [OF A Nacked(2)]
  from invB_at [OF B h(2)] obtain d where ok: "item_ok [] c a d" by blast
  from item_ok_basic(3) [OF ok] Nacked(2)
  have k: "length (written a (trace c)) = Suc (acks a (trace c))" by simp
  have "invN [SendError] (observe (Nacked a) (c\<lparr> pending := ps \<rparr>))"
    by (rule invN_gen [OF N, where new = "{a}"]) (use k h(2) f(1) Nacked(2) in auto)
  with Nacked show ?thesis by simp
next
  case (User a)
  have "invN [Do a] c"
    by (rule invN_gen [OF N, where new = "{}"]) auto
  with User show ?thesis by simp
qed

lemma run_inv: "inv [] (run (connect cb) ins)"
proof (rule run_invariant)
  show "inv [] (connect cb)"
    by (simp add: inv_def connect_invA connect_invB) (simp add: invN_def connect_def)
next
  fix it ag c ag' c'
  assume "inv (it # ag) c" "exec it ag c = (ag', c')"
  then show "inv ag' c'" unfolding inv_def using exec_invA exec_invB exec_invN by blast
next
  fix c i
  assume "inv [] c"
  then show "inv (fst (start c i)) (snd (start c i))"
    unfolding inv_def using start_invA start_invB start_invN by blast
qed

lemma run_item_inv:
  assumes "Enqueued a p \<in> set (trace (run (connect cb) ins))"
  shows "a < fresh (run (connect cb) ins)" "item_ok [] (run (connect cb) ins) a p"
    "invN [] (run (connect cb) ins)"
  using run_item_ok [OF assms] run_inv [of cb ins] by (simp_all add: inv_def)



subsection \<open>The write queue: order\<close>

lemma addrs_simps [simp]:
  "addrs [] = []" "addrs (t @ u) = addrs t @ addrs u" "addrs (e # t) = addr_of e @ addrs t"
  "enq_addrs [] = []" "enq_addrs (t @ u) = enq_addrs t @ enq_addrs u"
  "enq_addrs (e # t) = enq_addr_of e @ enq_addrs t"
  by (simp_all add: addrs_def enq_addrs_def)

lemma plain_addr: "plain e \<Longrightarrow> addr_of e = [] \<and> enq_addr_of e = []"
  by (cases e) simp_all

lemma invC_parts:
  assumes "invC ag c"
  shows "enq_addrs (trace c) = [0..<fresh c]" "sorted (addrs (trace c))"
    "\<And>b. b \<in> set (addrs (trace c)) \<Longrightarrow> b < fresh c"
    "\<And>b a. b \<in> set (addrs (trace c)) \<Longrightarrow> a \<in> set (txDataQueue c) \<Longrightarrow> b \<le> a"
    "\<And>a. alive ag c \<Longrightarrow> a < fresh c \<Longrightarrow> a \<notin> set (txDataQueue c) \<Longrightarrow> complete c a"
    "\<And>b a. b \<in> set (addrs (trace c)) \<Longrightarrow> a < b \<Longrightarrow> complete c a"
  using assms unfolding invC_def by blast+

lemma invC_intro:
  assumes "enq_addrs (trace c) = [0..<fresh c]" "sorted (addrs (trace c))"
    "\<And>b. b \<in> set (addrs (trace c)) \<Longrightarrow> b < fresh c"
    "\<And>b a. b \<in> set (addrs (trace c)) \<Longrightarrow> a \<in> set (txDataQueue c) \<Longrightarrow> b \<le> a"
    "\<And>a. alive ag c \<Longrightarrow> a < fresh c \<Longrightarrow> a \<notin> set (txDataQueue c) \<Longrightarrow> complete c a"
    "\<And>b a. b \<in> set (addrs (trace c)) \<Longrightarrow> a < b \<Longrightarrow> complete c a"
  shows "invC ag c"
  unfolding invC_def using assms by blast

lemma invC_gen:
  assumes C: "invC ag c"
    and t: "addrs (trace c') = addrs (trace c)" "enq_addrs (trace c') = enq_addrs (trace c)"
    and f: "fresh c' = fresh c"
    and q: "set (txDataQueue c') \<subseteq> set (txDataQueue c)"
    and k: "\<And>a. complete c a \<Longrightarrow> complete c' a"
    and l: "alive ag' c' \<Longrightarrow> alive ag c \<and> txDataQueue c' = txDataQueue c"
  shows "invC ag' c'"
proof (rule invC_intro)
  note p = invC_parts [OF C]
  show "enq_addrs (trace c') = [0..<fresh c']" using p(1) t f by simp
  show "sorted (addrs (trace c'))" using p(2) t by simp
  show "\<And>b. b \<in> set (addrs (trace c')) \<Longrightarrow> b < fresh c'" using p(3) t f by simp
  show "\<And>b a. b \<in> set (addrs (trace c')) \<Longrightarrow> a \<in> set (txDataQueue c') \<Longrightarrow> b \<le> a"
    using p(4) t q by auto
  show "\<And>a. alive ag' c' \<Longrightarrow> a < fresh c' \<Longrightarrow> a \<notin> set (txDataQueue c') \<Longrightarrow> complete c' a"
    using p(5) l k f by auto
  show "\<And>b a. b \<in> set (addrs (trace c')) \<Longrightarrow> a < b \<Longrightarrow> complete c' a"
    using p(6) t k by auto
qed

lemma complete_plain:
  "plain e \<Longrightarrow> complete c a \<Longrightarrow> trace c' = trace c @ [e] \<Longrightarrow> complete c' a"
  by (simp add: complete_def plain_proj)

lemma complete_mono:
  "complete c a \<Longrightarrow> enq a (trace c') = enq a (trace c) \<Longrightarrow>
   written a (trace c') = written a (trace c) \<Longrightarrow> complete c' a"
  by (simp add: complete_def)

lemma invC_Do: "invC (Do a # ag) c \<Longrightarrow> invC ag c"
  by (simp add: invC_def alive_def)

lemma invC_enqueue:
  assumes C: "invC ag c"
  shows "invC ag (enqueue d cb c)"
proof (rule invC_intro)
  note p = invC_parts [OF C]
  let ?c' = "enqueue d cb c"
  have mono: "complete ?c' a" if "complete c a" "a < fresh c" for a
    using that by (intro complete_mono [OF that(1)]) simp_all
  show "enq_addrs (trace ?c') = [0..<fresh ?c']" using p(1) by simp
  show "sorted (addrs (trace ?c'))" using p(2) by simp
  show "\<And>b. b \<in> set (addrs (trace ?c')) \<Longrightarrow> b < fresh ?c'"
    using p(3) by (simp add: less_Suc_eq)
  show "\<And>b a. b \<in> set (addrs (trace ?c')) \<Longrightarrow> a \<in> set (txDataQueue ?c') \<Longrightarrow> b \<le> a"
    using p(3,4) by (auto simp: less_imp_le)
  show "complete ?c' a" if "alive ag ?c'" "a < fresh ?c'" "a \<notin> set (txDataQueue ?c')" for a
  proof -
    from that(2,3) have lt: "a < fresh c" and nq: "a \<notin> set (txDataQueue c)" by auto
    from that(1) have "alive ag c" by (simp add: alive_def)
    from p(5) [OF this lt nq] lt show ?thesis by (rule mono)
  qed
  show "complete ?c' a" if "b \<in> set (addrs (trace ?c'))" "a < b" for a b
  proof -
    from that(1) have b: "b \<in> set (addrs (trace c))" by simp
    from p(3) [OF b] that(2) have "a < fresh c" by simp
    with p(6) [OF b that(2)] show ?thesis by (rule mono)
  qed
qed

lemma sorted_snoc_le: "sorted xs \<Longrightarrow> (\<And>x. x \<in> set xs \<Longrightarrow> x \<le> (y::nat)) \<Longrightarrow> sorted (xs @ [y])"
  by (simp add: sorted_append)

lemma invC_sent:
  assumes A: "invA ag c" and B: "invB ag c" and C: "invC ag c" and ip: "\<not> txInProgress c"
    and w: "writeChunk c = Inr c'"
  shows "invC ag c'"
  using w
proof (cases rule: writeChunk_Inr)
  case (1 a0 q r)
  note p = invC_parts [OF C]
  note live = invA_live [OF A 1(3) ip]
  from 1(1) have inq: "a0 \<in> set (txDataQueue c)" by simp
  from A inq have a0: "a0 < fresh c" by (simp add: invA_def)
  from A 1(1) have min: "\<And>a. a \<in> set (txDataQueue c) \<Longrightarrow> a0 \<le> a"
    unfolding invA_def by (auto simp: less_imp_le)
  from 1(3) ip have al: "alive ag c" by (simp add: alive_def)
  have t: "trace c' = trace c @ [WriteValue a0 (fst (takeChunk r))]"
    "txDataQueue c' = txDataQueue c" "fresh c' = fresh c"
    by (simp_all add: 1(4))
  have mono: "complete c' a" if "complete c a" "a \<noteq> a0" for a
    using that by (intro complete_mono [OF that(1)]) (simp_all add: t)
  show ?thesis
  proof (rule invC_intro)
    show "enq_addrs (trace c') = [0..<fresh c']" using p(1) by (simp add: t)
    show "sorted (addrs (trace c'))"
      using p(2) p(4) [OF _ inq] by (simp add: t sorted_snoc_le)
    show "\<And>b. b \<in> set (addrs (trace c')) \<Longrightarrow> b < fresh c'"
      using p(3) a0 by (auto simp: t)
    show "\<And>b a. b \<in> set (addrs (trace c')) \<Longrightarrow> a \<in> set (txDataQueue c') \<Longrightarrow> b \<le> a"
      using p(4) min by (auto simp: t)
    show "complete c' a" if "alive ag c'" "a < fresh c'" "a \<notin> set (txDataQueue c')" for a
    proof -
      from that(3) inq have ne: "a \<noteq> a0" by (auto simp: t)
      from p(5) [OF al] that(2,3) have "complete c a" by (simp add: t)
      then show ?thesis using ne by (rule mono)
    qed
    show "complete c' a" if "b \<in> set (addrs (trace c'))" "a < b" for a b
    proof -
      from that(1) have "b \<in> set (addrs (trace c)) \<or> b = a0" by (auto simp: t)
      then have le: "b \<le> a0" using p(4) [OF _ inq] by auto
      with that(2) have lt: "a < a0" by simp
      with min have nq: "a \<notin> set (txDataQueue c)" by force
      from lt a0 have "a < fresh c" by simp
      from p(5) [OF al this nq] lt show ?thesis by (intro mono) simp_all
    qed
  qed
qed

lemma invC_dead:
  assumes C: "invC ag c"
    and t: "addrs (trace c') = addrs (trace c)" "enq_addrs (trace c') = enq_addrs (trace c)"
    and f: "fresh c' = fresh c"
    and q: "set (txDataQueue c') \<subseteq> set (txDataQueue c)"
    and k: "\<And>a. complete c a \<Longrightarrow> complete c' a"
    and l: "\<not> alive ag' c'"
  shows "invC ag' c'"
proof (rule invC_gen [OF C t f q k])
  assume "alive ag' c'"
  with l show "alive ag c \<and> txDataQueue c' = txDataQueue c" by simp
qed

lemma invC_fault:
  assumes C: "invC ag c" and w: "writeChunk c = Inl c1" and ntx: "\<not> txCharacteristic c"
  shows "invC ag' (observe TypeError c1)"
  using w
proof (cases rule: writeChunk_Inl)
  case 1
  show ?thesis
    by (rule invC_dead [OF C]) (use ntx in \<open>auto simp: 1 alive_def intro: complete_mono\<close>)
next
  case (2 a q)
  show ?thesis
    by (rule invC_dead [OF C]) (use ntx in \<open>auto simp: 2 alive_def intro: complete_mono\<close>)
next
  case (3 a q d)
  show ?thesis
    by (rule invC_dead [OF C]) (use ntx in \<open>auto simp: 3 alive_def intro: complete_mono\<close>)
qed

lemma invA_after:
  assumes "invA (AfterCallback # ag) c"
  shows "ag = [CatchWrite]" "invA ag (c\<lparr> txInProgress := False \<rparr>)"
  using assms unfolding invA_def by (auto simp: shape_elims shapes_def)

lemma exec_invC:
  assumes A: "invA (it # ag) c" and B: "invB (it # ag) c" and C: "invC (it # ag) c"
    and e: "exec it ag c = (ag', c')"
  shows "invC ag' c'"
  using e
proof (cases rule: exec_cases)
  case (Write_noop d cb)
  with C show ?thesis by (simp add: invC_Do)
next
  case (Write_queued d cb)
  with C show ?thesis by (simp add: invC_Do invC_enqueue)
next
  case (Write_sent d cb)
  with A B C have i: "invA ag c" "invB ag c" "invC ag c"
    by (simp_all add: invA_Do invB_Do invC_Do)
  with Write_sent have "invA ag (enqueue d cb c)" "invB ag (enqueue d cb c)"
    "invC ag (enqueue d cb c)"
    by (simp_all add: invA_enqueue invB_enqueue invC_enqueue)
  from invC_sent [OF this _ Write_sent(5)] Write_sent show ?thesis by simp
next
  case (Write_fault d cb c1)
  with A have "invA ag c" by (simp add: invA_Do)
  with Write_fault have i: "invA ag (enqueue d cb c)" by (simp add: invA_enqueue)
  from invA_pending [OF i] Write_fault have "pending (enqueue d cb c) = []" by simp
  from invA_no_fault [OF i this, of c1] Write_fault show ?thesis by simp
next
  case Close_noop
  with C show ?thesis by (simp add: invC_Do)
next
  case Close_open
  show ?thesis
    unfolding Close_open
    by (rule invC_dead [OF C]) (auto simp: alive_def intro: complete_mono)
next
  case Close_neg
  show ?thesis
    unfolding Close_neg
    by (rule invC_dead [OF C]) (auto simp: alive_def intro: complete_mono)
next
  case (On evt cb)
  show ?thesis
    unfolding On(2,3)
    by (rule invC_gen [OF C]) (auto simp: alive_def On(1) intro: complete_mono)
next
  case After_idle
  note a = invA_after [OF A [unfolded After_idle(1)]]
  show ?thesis
    unfolding After_idle
    by (rule invC_gen [OF C [unfolded After_idle(1)]])
       (auto simp: alive_def a(1) intro: complete_mono)
next
  case After_sent
  note a = invA_after [OF A [unfolded After_sent(1)]]
  have "invB ag (c\<lparr> txInProgress := False \<rparr>)"
    by (rule invB_frame [OF B]) (simp_all add: a(1) After_sent(1))
  moreover have "invC ag (c\<lparr> txInProgress := False \<rparr>)"
    by (rule invC_gen [OF C [unfolded After_sent(1)]])
       (auto simp: alive_def a(1) intro: complete_mono)
  ultimately show ?thesis
    using invC_sent [OF a(2) _ _ _ After_sent(4)] After_sent(3) by simp
next
  case (After_fault c1)
  note a = invA_after [OF A [unfolded After_fault(1)]]
  from invA_pending [OF a(2)] have p: "pending (c\<lparr> txInProgress := False \<rparr>) = []" by simp
  from invA_no_fault [OF a(2) p _ _ _, of c1] After_fault(2,4)
  have ntx: "\<not> txCharacteristic (c\<lparr> txInProgress := False \<rparr>)" by auto
  have "invC (it # ag) (c\<lparr> txInProgress := False \<rparr>)"
    by (rule invC_dead [OF C]) (use ntx in \<open>auto simp: alive_def intro: complete_mono\<close>)
  from invC_fault [OF this After_fault(4) ntx] After_fault(5) show ?thesis by simp
next
  case Emit
  from A Emit(1) have ag: "ag = [CatchNeg]" by (auto simp: invA_def shape_elims)
  show ?thesis
    unfolding Emit(2,3)
    by (rule invC_gen [OF C]) (auto simp: alive_def ag Emit(1) intro: complete_mono)
next
  case Marker
  from A Marker(1) have ag: "ag = []" by (auto simp: invA_def shape_elims)
  show ?thesis
    unfolding Marker(2,3)
    by (rule invC_gen [OF C]) (use Marker(1) in \<open>auto simp: alive_def ag\<close>)
next
  case Send_error
  from A Send_error(1) have "pending c = []" "\<not> txCharacteristic c \<or> txInProgress c"
    unfolding invA_def by (auto simp: shape_elims)
  moreover from A Send_error(1) have ag: "ag = []" by (auto simp: invA_def shape_elims)
  ultimately show ?thesis
    unfolding Send_error(2,3)
    by (intro invC_dead [OF C]) (auto simp: alive_def intro: complete_mono)
next
  case Neg_error
  from A Neg_error(1) have ag: "ag = []" by (auto simp: invA_def shape_elims)
  show ?thesis
    unfolding Neg_error(2,3)
    by (rule invC_gen [OF C]) (auto simp: alive_def ag Neg_error(1))
qed

lemma invC_acked_last:
  assumes A: "invA [] c" and B: "invB [] c" and C: "invC [] c" and p: "pending c = a0 # ps"
    and fl: "falsy (data (heap c a0))"
    and t: "addrs (trace c') = addrs (trace c)" "enq_addrs (trace c') = enq_addrs (trace c)"
      "\<And>a. enq a (trace c') = enq a (trace c)" "\<And>a. written a (trace c') = written a (trace c)"
    and f: "fresh c' = fresh c" "txDataQueue c' = tl (txDataQueue c)"
      "txCharacteristic c' = txCharacteristic c"
  shows "invC ag' c'"
proof (rule invC_intro)
  note q = invC_parts [OF C]
  note fl' = invA_in_flight [OF A p]
  note h = invA_head [OF A p]
  have mono: "complete c' a" if "complete c a" for a
    using that by (rule complete_mono) (simp_all add: t)
  show "enq_addrs (trace c') = [0..<fresh c']" using q(1) by (simp add: t f)
  show "sorted (addrs (trace c'))" using q(2) by (simp add: t)
  show "\<And>b. b \<in> set (addrs (trace c')) \<Longrightarrow> b < fresh c'" using q(3) by (simp add: t f)
  show "\<And>b a. b \<in> set (addrs (trace c')) \<Longrightarrow> a \<in> set (txDataQueue c') \<Longrightarrow> b \<le> a"
    using q(4) by (auto simp: t f dest: mem_tl)
  show "\<And>b a. b \<in> set (addrs (trace c')) \<Longrightarrow> a < b \<Longrightarrow> complete c' a"
    using q(6) mono by (simp add: t)
  show "complete c' a" if "alive ag' c'" "a < fresh c'" "a \<notin> set (txDataQueue c')" for a
  proof (cases "a = a0")
    case True
    from invB_at [OF B h(2)] obtain d where d: "enq a0 (trace c) = [d]"
      and ok: "item_ok [] c a0 d" by blast
    from p have inp: "a0 \<in> set (pending c)" by simp
    from falsy_None [OF fl fl'(5)] have dn: "data (heap c a0) = None" .
    from item_ok_live(1) [OF ok h(1)] inp dn have "written a0 (trace c) = chunks d" by simp
    with d have "complete c a0" by (auto simp: complete_def)
    with True show ?thesis by (simp add: mono)
  next
    case False
    with that(3) fl'(4) have nq: "a \<notin> set (txDataQueue c)"
      by (auto simp: f dest: in_tl)
    from that(1) p have "alive [] c" by (simp add: alive_def f)
    from q(5) [OF this _ nq] that(2) show ?thesis by (simp add: f mono)
  qed
qed

lemma start_invC:
  assumes A: "invA [] c" and B: "invB [] c" and C: "invC [] c"
  shows "invC (fst (start c i)) (snd (start c i))"
proof (cases rule: start_cases [of c i])
  case Idle
  with C show ?thesis by simp
next
  case Advance
  have "invC [] (resolve c)"
    by (rule invC_gen [OF C])
       (auto simp: resolve_fields [OF Advance(2)] alive_def intro: complete_mono)
  with Advance show ?thesis by simp
next
  case Final
  with A have z: "fresh c = 0" "txDataQueue c = []" by (simp_all add: invA_def)
  note q = invC_parts [OF C]
  from q(3) z have e: "addrs (trace c) = []" by (cases "addrs (trace c)") auto
  have "invC (map Do (fst (onConnected c)) @ [EmitOpen, CatchNeg]) (opened c)"
    by (rule invC_intro) (use q(1) z e in simp_all)
  with Final show ?thesis by simp
next
  case Rejected
  have "invC [NegError] (c\<lparr> stage := Settled \<rparr>)"
    by (rule invC_gen [OF C]) (auto simp: alive_def intro: complete_mono)
  with Rejected show ?thesis by simp
next
  case Gatt
  with C show ?thesis by (simp add: invC_def alive_def)
next
  case (Notif d)
  have "invC (calls (ondata c)) (observe (Emitted EvData d) c)"
    by (rule invC_gen [OF C]) (auto simp: alive_def intro: complete_mono)
  with Notif show ?thesis by simp
next
  case (Acked_more a ps)
  have "invC [AfterCallback, CatchWrite] (acked a ps c)"
    by (rule invC_gen [OF C]) (use Acked_more(2) in \<open>auto simp: alive_def intro: complete_mono\<close>)
  with Acked_more show ?thesis by simp
next
  case (Acked_last a ps prog)
  have "invC (map Do prog @ [AfterCallback, CatchWrite]) (observe (Completed a) (shifted a ps c))"
    by (rule invC_acked_last [OF A B C Acked_last(2,3)]) simp_all
  with Acked_last show ?thesis by simp
next
  case (Acked_fault a ps)
  note f = invA_in_flight [OF A Acked_fault(2)]
  have "invC [SendError] (observe TypeError (shifted a ps c))"
    by (rule invC_dead [OF C])
       (use f(1,2) in \<open>auto simp: alive_def dest: mem_tl intro: complete_mono\<close>)
  with Acked_fault show ?thesis by simp
next
  case (Nacked a ps)
  note f = invA_in_flight [OF A Nacked(2)]
  have "invC [SendError] (observe (Nacked a) (c\<lparr> pending := ps \<rparr>))"
    by (rule invC_dead [OF C])
       (use f(1,2) in \<open>auto simp: alive_def intro: complete_mono\<close>)
  with Nacked show ?thesis by simp
next
  case (User a)
  with C show ?thesis by (simp add: invC_def alive_def)
qed

lemma run_invC: "invC [] (run (connect cb) ins)"
proof -
  have "(\<lambda>ag c. inv ag c \<and> invC ag c) [] (run (connect cb) ins)"
  proof (rule run_invariant)
    have "invC [] (connect cb)"
      by (rule invC_intro) (simp_all add: connect_def)
    moreover have "inv [] (connect cb)" using run_inv [of cb "[]"] by (simp add: run_def)
    ultimately show "inv [] (connect cb) \<and> invC [] (connect cb)" by simp
  next
    fix it ag c ag' c'
    assume "inv (it # ag) c \<and> invC (it # ag) c" "exec it ag c = (ag', c')"
    then show "inv ag' c' \<and> invC ag' c'"
      unfolding inv_def using exec_invA exec_invB exec_invN exec_invC by blast
  next
    fix c i
    assume "inv [] c \<and> invC [] c"
    then show "inv (fst (start c i)) (snd (start c i)) \<and> invC (fst (start c i)) (snd (start c i))"
      unfolding inv_def using start_invA start_invB start_invN start_invC by blast
  qed
  then show ?thesis by simp
qed

lemma addrs_written: "b \<in> set (addrs t) \<longleftrightarrow> written b t \<noteq> []"
proof (induction t)
  case Nil
  then show ?case by simp
next
  case (Cons e t)
  then show ?case by (cases e) auto
qed

text \<open>
  C2. In every run at most one write is pending. Requests get their addresses in the
  order of the calls of \<^verbatim>\<open>write\<close>; the addresses of the chunks handed to the
  transport never decrease, so chunks of different requests are not interleaved; the
  chunks of one request are handed out in the order of its payload; and when a chunk of a
  request has been handed out, every chunk of every request enqueued before it has been
  handed out already.
\<close>

theorem writes_serialized:
  "length (pending (run (connect cb) ins)) \<le> 1
   \<and> enq_addrs (trace (run (connect cb) ins)) = [0..<fresh (run (connect cb) ins)]
   \<and> sorted (addrs (trace (run (connect cb) ins)))
   \<and> (Enqueued a pa \<in> set (trace (run (connect cb) ins)) \<longrightarrow>
        prefix (written a (trace (run (connect cb) ins))) (chunks pa))
   \<and> (Enqueued a pa \<in> set (trace (run (connect cb) ins))
        \<and> a < b \<and> written b (trace (run (connect cb) ins)) \<noteq> [] \<longrightarrow>
        written a (trace (run (connect cb) ins)) = chunks pa)"
proof -
  let ?c = "run (connect cb) ins"
  from run_inv [of cb ins] have A: "invA [] ?c" by (simp add: inv_def)
  note q = invC_parts [OF run_invC [of cb ins]]
  from A have one: "length (pending ?c) \<le> 1" unfolding invA_def by auto
  have pre: "prefix (written a (trace ?c)) (chunks pa)" if "Enqueued a pa \<in> set (trace ?c)"
    using item_ok_basic(1) [OF run_item_inv(2) [OF that]] .
  have all: "written a (trace ?c) = chunks pa"
    if "Enqueued a pa \<in> set (trace ?c) \<and> a < b \<and> written b (trace ?c) \<noteq> []"
  proof -
    from that have "b \<in> set (addrs (trace ?c))" by (simp add: addrs_written)
    from q(6) [OF this] that have "complete ?c a" by simp
    then obtain d where d: "enq a (trace ?c) = [d]" "written a (trace ?c) = chunks d"
      by (auto simp: complete_def)
    from that have "pa \<in> set (enq a (trace ?c))" by (simp add: enq_mem)
    with d show ?thesis by simp
  qed
  from one q(1,2) pre all show ?thesis by blast
qed

theorem writes_serialized_witness:
  "Enqueued 0 ''abcdefghijklmnopqrstuvwxyz'' \<in> set (trace (run (connect ([], []))
      [Resolve, Resolve, Resolve, Resolve, Resolve, Resolve,
       User (ActWrite ''abcdefghijklmnopqrstuvwxyz'' (Some [])), User (ActWrite ''B'' (Some [])),
       WriteDone, WriteDone, WriteDone]))
   \<and> (0::nat) < 1
   \<and> written 1 (trace (run (connect ([], []))
      [Resolve, Resolve, Resolve, Resolve, Resolve, Resolve,
       User (ActWrite ''abcdefghijklmnopqrstuvwxyz'' (Some [])), User (ActWrite ''B'' (Some [])),
       WriteDone, WriteDone, WriteDone])) = [''B'']
   \<and> written 0 (trace (run (connect ([], []))
      [Resolve, Resolve, Resolve, Resolve, Resolve, Resolve,
       User (ActWrite ''abcdefghijklmnopqrstuvwxyz'' (Some [])), User (ActWrite ''B'' (Some [])),
       WriteDone, WriteDone, WriteDone])) = [''abcdefghijklmnop'', ''qrstuvwxyz'']
   \<and> addrs (trace (run (connect ([], []))
      [Resolve, Resolve, Resolve, Resolve, Resolve, Resolve,
       User (ActWrite ''abcdefghijklmnopqrstuvwxyz'' (Some [])), User (ActWrite ''B'' (Some [])),
       WriteDone, WriteDone, WriteDone])) = [0, 0, 1]"
  using writes_serialized [of "([], [])"
      "[Resolve, Resolve, Resolve, Resolve, Resolve, Resolve,
        User (ActWrite ''abcdefghijklmnopqrstuvwxyz'' (Some [])), User (ActWrite ''B'' (Some [])),
        WriteDone, WriteDone, WriteDone]" 0 "''abcdefghijklmnopqrstuvwxyz''" 1]
  by (simp add: ops written_def addrs_def)

subsection \<open>The write queue: a failed write\<close>

lemma idly_refl: "stuck c \<Longrightarrow> idly c c"
  by (simp add: idly_def)

lemma idly_step:
  assumes "idly c0 c" "stuck c'" "trace c' = trace c @ new" "\<forall>e \<in> set new. \<not> transfer e"
  shows "idly c0 c'"
proof -
  from assms(1) obtain old where o: "trace c = trace c0 @ old" "\<forall>e \<in> set old. \<not> transfer e"
    unfolding idly_def by blast
  from o assms(3,4) have "trace c' = trace c0 @ (old @ new)" "\<forall>e \<in> set (old @ new). \<not> transfer e"
    by auto
  with assms(2) show ?thesis unfolding idly_def by blast
qed

lemma idly_trans: "idly a b \<Longrightarrow> idly b c \<Longrightarrow> idly a c"
  unfolding idly_def [of b c] by (elim conjE exE) (rule idly_step)

lemma unwind_no_After: "AfterCallback \<notin> set ag \<Longrightarrow> AfterCallback \<notin> set (unwind ag)"
  by (induction ag rule: unwind.induct) auto

lemma exec_stuck:
  assumes a: "AfterCallback \<notin> set (it # ag)" and i: "idly c0 c" and e: "exec it ag c = (ag', c')"
  shows "AfterCallback \<notin> set ag' \<and> idly c0 c'"
proof -
  from i have s: "stuck c" by (simp add: idly_def)
  from e show ?thesis
  proof (cases rule: exec_cases)
    case (Write_noop d cb)
    with a i show ?thesis by simp
  next
    case (Write_queued d cb)
    have "idly c0 (enqueue d cb c)"
      by (rule idly_step [OF i, where new = "[Enqueued (fresh c) d]"])
         (use s in \<open>simp_all add: stuck_def\<close>)
    with a Write_queued show ?thesis by simp
  next
    case (Write_sent d cb)
    with s show ?thesis by (simp add: stuck_def)
  next
    case (Write_fault d cb c1)
    with s show ?thesis by (simp add: stuck_def)
  next
    case Close_noop
    with a i show ?thesis by simp
  next
    case Close_open
    have "idly c0 c'"
      unfolding Close_open
      by (rule idly_step [OF i, where new = "[Disconnect, Emitted EvClose []]"])
         (use s in \<open>simp_all add: stuck_def\<close>)
    with a Close_open(4) show ?thesis by (auto simp: calls_def split: option.splits)
  next
    case Close_neg
    have "idly c0 c'"
      unfolding Close_neg
      by (rule idly_step [OF i, where new = "[Disconnect, Connected False]"])
         (use s in \<open>simp_all add: stuck_def\<close>)
    with a Close_neg(4) show ?thesis by auto
  next
    case (On evt cb)
    have "idly c0 c'"
      unfolding On
      by (rule idly_step [OF i, where new = "[]"]) (use s in \<open>simp_all add: stuck_def\<close>)
    with a On(2) show ?thesis by simp
  next
    case After_idle
    with a show ?thesis by simp
  next
    case After_sent
    with a show ?thesis by simp
  next
    case (After_fault c1)
    with a show ?thesis by simp
  next
    case Emit
    have "idly c0 c'"
      unfolding Emit
      by (rule idly_step [OF i, where new = "[Emitted EvOpen []]"])
         (use s in \<open>simp_all add: stuck_def\<close>)
    with a Emit(2) show ?thesis by (auto simp: calls_def split: option.splits)
  next
    case Marker
    with a i show ?thesis by simp
  next
    case Send_error
    have "idly c0 c'"
      unfolding Send_error
      by (rule idly_step [OF i, where new = "[]"]) (use s in \<open>simp_all add: stuck_def\<close>)
    with a Send_error(2) show ?thesis by simp
  next
    case Neg_error
    with a i show ?thesis by simp
  qed
qed

lemma drain_stuck:
  assumes "AfterCallback \<notin> set ag" "idly c0 c"
  shows "idly c0 (drain ag c)"
proof -
  have "(\<lambda>ag c. AfterCallback \<notin> set ag \<and> idly c0 c) [] (drain ag c)"
  proof (rule drain_invariant)
    show "AfterCallback \<notin> set ag \<and> idly c0 c" using assms by simp
  next
    fix it ag c ag' c'
    assume "AfterCallback \<notin> set (it # ag) \<and> idly c0 c" "exec it ag c = (ag', c')"
    then show "AfterCallback \<notin> set ag' \<and> idly c0 c'"
      using exec_stuck [of it ag c0 c ag' c'] by blast
  qed
  then show ?thesis by simp
qed

lemma step_stuck:
  assumes s: "stuck c"
  shows "idly c (step c i)"
proof -
  note r = idly_refl [OF s]
  have "idly c (drain (fst (start c i)) (snd (start c i)))"
  proof (cases rule: start_cases [of c i])
    case Idle
    with r show ?thesis by simp
  next
    case Advance
    from s Advance(2) have "resolve c = c" by (simp add: resolve_def stuck_def)
    with Advance r show ?thesis by simp
  next
    case Final
    with s show ?thesis by (simp add: stuck_def)
  next
    case Rejected
    with s show ?thesis by (simp add: stuck_def)
  next
    case Gatt
    with r show ?thesis by (simp del: drain.simps add: drain_stuck)
  next
    case (Notif d)
    have "idly c (observe (Emitted EvData d) c)"
      by (rule idly_step [OF r, where new = "[Emitted EvData d]"])
         (use s in \<open>simp_all add: stuck_def\<close>)
    moreover have "AfterCallback \<notin> set (calls (ondata c))"
      by (auto simp: calls_def split: option.splits)
    ultimately show ?thesis using Notif by (simp del: drain.simps add: drain_stuck)
  next
    case (Acked_more a ps)
    with s show ?thesis by (simp add: stuck_def)
  next
    case (Acked_last a ps prog)
    with s show ?thesis by (simp add: stuck_def)
  next
    case (Acked_fault a ps)
    with s show ?thesis by (simp add: stuck_def)
  next
    case (Nacked a ps)
    with s show ?thesis by (simp add: stuck_def)
  next
    case (User a)
    with r show ?thesis by (simp del: drain.simps add: drain_stuck)
  qed
  then show ?thesis by (simp add: step_start)
qed

lemma run_stuck:
  assumes "stuck c"
  shows "idly c (run c ins)"
proof (induction ins rule: rev_induct)
  case Nil
  from assms show ?case by (simp add: run_def idly_refl)
next
  case (snoc i ins)
  then have "stuck (run c ins)" by (simp add: idly_def)
  from idly_trans [OF snoc step_stuck [OF this, of i]] show ?case by (simp add: run_def)
qed

lemma exec_emptied:
  assumes k: "emptied (it # ag) c" and e: "exec it ag c = (ag', c')"
  shows "emptied ag' c'"
proof (cases "it # ag = [SendError]")
  case True
  with e have "ag' = [Do ActClose]" "c' = c\<lparr> txDataQueue := [] \<rparr>" by simp_all
  then show ?thesis by (simp add: emptied_def)
next
  case False
  with k have q: "txDataQueue c = []" and a: "AfterCallback \<noteq> it" "AfterCallback \<notin> set ag"
    and t: "txCharacteristic c \<Longrightarrow> it = Do ActClose \<and> set ag \<subseteq> {Do ActClose}"
    by (auto simp: emptied_def)
  from e show ?thesis
  proof (cases rule: exec_cases)
    case (Write_noop d cb)
    with q a show ?thesis by (auto simp: emptied_def)
  next
    case (Write_queued d cb)
    with t show ?thesis by simp
  next
    case (Write_sent d cb)
    with t show ?thesis by simp
  next
    case (Write_fault d cb c1)
    with t show ?thesis by simp
  next
    case Close_noop
    with q a t show ?thesis by (auto simp: emptied_def)
  next
    case Close_open
    with q a show ?thesis by (auto simp: emptied_def calls_def split: option.splits)
  next
    case Close_neg
    with q a show ?thesis by (auto simp: emptied_def)
  next
    case (On evt cb)
    with q a t show ?thesis by (auto simp: emptied_def)
  next
    case After_idle
    with a show ?thesis by simp
  next
    case After_sent
    with a show ?thesis by simp
  next
    case (After_fault c1)
    with a show ?thesis by simp
  next
    case Emit
    with q a t show ?thesis by (auto simp: emptied_def calls_def split: option.splits)
  next
    case Marker
    with q a t show ?thesis by (auto simp: emptied_def)
  next
    case Send_error
    with a t show ?thesis by (auto simp: emptied_def)
  next
    case Neg_error
    with q a t show ?thesis by (auto simp: emptied_def)
  qed
qed

lemma drain_emptied: "txDataQueue (drain [SendError] c) = []"
proof -
  have "emptied [] (drain [SendError] c)"
    by (rule drain_invariant [where I = emptied, OF exec_emptied]) (simp_all add: emptied_def)
  then show ?thesis by (simp add: emptied_def)
qed

lemma idle_proj:
  assumes "\<forall>e \<in> set new. \<not> transfer e"
  shows "written b new = []" "dones b new = 0" "acks b new = 0"
  using assms
proof (induction new)
  case Nil
  {
    case 1 show ?case by (simp add: written_def)
  next
    case 2 show ?case by (simp add: dones_def)
  next
    case 3 show ?case by (simp add: acks_def)
  }
next
  case (Cons e new)
  {
    case 1 with Cons.IH(1) show ?case by (cases e) simp_all
  next
    case 2 with Cons.IH(2) show ?case by (cases e) simp_all
  next
    case 3 with Cons.IH(3) show ?case by (cases e) simp_all
  }
qed

text \<open>
  When the transport rejects the write in flight: the queue is emptied and nothing is
  pending; if the GATT session reference is set the connection is closed from then on; and
  whatever happens later, no chunk is handed to the transport and no callback of a request
  is called any more - in particular none for the requests that were queued.
\<close>

lemma failure_abandons:
  assumes p: "pending (run (connect cb) ins) \<noteq> []"
  shows "txDataQueue (step (run (connect cb) ins) WriteFailed) = []
     \<and> pending (step (run (connect cb) ins) WriteFailed) = []
     \<and> (btServer (run (connect cb) ins) \<longrightarrow>
          closed (run (step (run (connect cb) ins) WriteFailed) later))
     \<and> (\<forall>b. written b (trace (run (step (run (connect cb) ins) WriteFailed) later))
              = written b (trace (run (connect cb) ins))
           \<and> dones b (trace (run (step (run (connect cb) ins) WriteFailed) later))
              = dones b (trace (run (connect cb) ins)))
     \<and> (\<forall>b \<in> set (txDataQueue (run (connect cb) ins)).
           dones b (trace (run (step (run (connect cb) ins) WriteFailed) later)) = 0)"
proof -
  let ?c = "run (connect cb) ins"
  let ?c' = "step ?c WriteFailed"
  let ?c'' = "run ?c' later"
  from run_invAB [of cb ins] have A: "invA [] ?c" and B: "invB [] ?c" by simp_all
  from p obtain a ps where ps: "pending ?c = a # ps" by (cases "pending ?c") auto
  let ?c1 = "observe (Nacked a) (?c\<lparr> pending := ps \<rparr>)"
  from A p have f: "txInProgress ?c" "pending ?c = [hd (txDataQueue ?c)]" "stage ?c = Settled"
    unfolding invA_def by auto
  with ps have "ps = []" by simp
  with f have s1: "stuck ?c1" by (simp add: stuck_def)
  have st: "?c' = drain [SendError] ?c1" using ps by simp
  have "idly ?c1 (drain [SendError] ?c1)"
    by (rule drain_stuck) (simp_all add: idly_refl [OF s1])
  with st have i1: "idly ?c1 ?c'" by simp
  then have s': "stuck ?c'" by (simp add: idly_def)
  from idly_trans [OF i1 run_stuck [OF s', of later]] have "idly ?c1 ?c''" .
  then obtain new where n: "trace ?c'' = trace ?c1 @ new" "\<forall>e \<in> set new. \<not> transfer e"
    unfolding idly_def by blast
  then have tr: "trace ?c'' = trace ?c @ Nacked a # new" by simp
  have same: "written b (trace ?c'') = written b (trace ?c)
      \<and> dones b (trace ?c'') = dones b (trace ?c)" for b
    unfolding tr using idle_proj [OF n(2), of b] by simp
  have q: "txDataQueue ?c' = []" unfolding st by (rule drain_emptied)
  from s' have pe: "pending ?c' = []" by (simp add: stuck_def)
  have cl: "closed ?c''" if bs: "btServer ?c"
  proof -
    let ?c2 = "?c1\<lparr> txDataQueue := [] \<rparr>"
    from f bs have "stage ?c2 = Settled" "btServer ?c2" by simp_all
    then have "closed (drain [Do ActClose] ?c2)" by (rule close_closes)
    moreover have "?c' = drain [Do ActClose] ?c2" using ps by simp
    ultimately have "closed ?c'" by simp
    from run_closed [OF this, of later] show ?thesis by (simp add: quietly_def)
  qed
  have none: "dones b (trace ?c'') = 0" if m: "b \<in> set (txDataQueue ?c)" for b
  proof -
    from A m have "b < fresh ?c" unfolding invA_def by blast
    from invB_at [OF B this] obtain d where "item_ok [] ?c b d" by blast
    from item_ok_queued(1) [OF this m] same [of b] show ?thesis by simp
  qed
  from q pe cl same none show ?thesis by blast
qed


end
